theory Spec2Isabelle
  imports Main "HOL-Library.AList"
begin

section \<open>The stream session of \<^verbatim>\<open>asyncssh/stream.py\<close>\<close>

text \<open>
  The theory embeds class \<^verbatim>\<open>SSHStreamSession\<close>: its receive queues, its waiter
  slots, the channel callbacks and the coroutines \<^verbatim>\<open>read\<close>, \<^verbatim>\<open>readline\<close> and
  \<^verbatim>\<open>drain\<close>.

  \<^item> A datatype tag is \<^verbatim>\<open>None\<close> (the primary stream) or an integer code, so it is a
    \<open>nat option\<close>.
  \<^item> A payload is a \<^verbatim>\<open>bytes\<close> or a \<^verbatim>\<open>str\<close> object, depending on the channel's
    encoding. Both are sequences of units (byte values or code points), both separators
    are the unit 10, and \<^verbatim>\<open>len\<close>, slicing, \<^verbatim>\<open>find\<close> and \<^verbatim>\<open>join\<close> act alike on both, so
    a payload is a \<open>nat list\<close>.
  \<^item> The two dictionaries are association lists with the keys in insertion order.
  \<^item> A future of the event loop is an identifier into a store kept with the session; the
    store holds, for each future, whether it is pending, has its result, or was cancelled.
  \<^item> The channel is the object the session calls \<^verbatim>\<open>pause_reading\<close> and
    \<^verbatim>\<open>resume_reading\<close> on; the model records these calls in order.
  \<^item> A Python exception, raised explicitly or by a failing lookup, is the constructor
    \<open>Raise\<close> of a result. The exception objects the channel hands to the session
    (the argument of \<^verbatim>\<open>connection_lost\<close>) are opaque to it: the model numbers them,
    and \<open>ChannelError k\<close> is the object numbered \<open>k\<close>, raised.
\<close>

subsection \<open>Data\<close>

type_synonym dtype = "nat option"

type_synonym payload = "nat list"

datatype exc =
    KeyError dtype
  | AttributeError
  | TypeError
  | InvalidStateError
  | RuntimeError
  | CancelledError
  | BrokenPipeError
  | IncompleteReadError payload int
  | ChannelError nat

datatype item = Data payload | Exc nat

datatype 'a result = Return 'a | Raise exc

text \<open>
  A coroutine either finishes (\<open>Done\<close>) or is parked on a future (\<open>Blocked\<close>), keeping
  the local variables it resumes with.
\<close>

datatype ('a, 'l) coro = Done "'a result" | Blocked nat 'l

datatype fstate = Pending | Resolved | Cancelled

datatype chan_call = PauseReading | ResumeReading

record channel =
  encoding :: bool
  recv_window :: int
  read_datatypes :: "dtype list"
  calls :: "chan_call list"

record session =
  chan :: "channel option"
  limit :: "int option"
  exception :: "nat option"
  eof_received_flag :: bool
  connection_lost_flag :: bool
  recv_buf :: "(dtype \<times> item list) list"
  recv_buf_len :: int
  read_waiter :: "(dtype \<times> nat option) list"
  write_paused :: bool
  drain_waiters :: "nat list"
  futures :: "nat \<Rightarrow> fstate"
  next_future :: nat

text \<open>\<^verbatim>\<open>__init__\<close>; no future exists yet.\<close>

definition init_session :: session where
  "init_session =
     \<lparr> chan = None, limit = None, exception = None,
       eof_received_flag = False, connection_lost_flag = False,
       recv_buf = [(None, [])], recv_buf_len = 0,
       read_waiter = [(None, None)],
       write_paused = False, drain_waiters = [],
       futures = (\<lambda>_. Pending), next_future = 0 \<rparr>"

subsection \<open>Futures and the channel\<close>

text \<open>\<^verbatim>\<open>asyncio.Future(loop=...)\<close>: a fresh, pending future.\<close>

definition new_future :: "session \<Rightarrow> nat \<times> session" where
  "new_future s =
     (next_future s,
      s\<lparr>futures := (futures s)(next_future s := Pending),
        next_future := Suc (next_future s)\<rparr>)"

text \<open>
  \<^verbatim>\<open>if not waiter.cancelled(): waiter.set_result(None)\<close>. Setting the result of a
  future that already has one raises \<^verbatim>\<open>InvalidStateError\<close>.
\<close>

definition wake :: "session \<Rightarrow> nat \<Rightarrow> unit result \<times> session" where
  "wake s waiter =
     (case futures s waiter of
        Cancelled \<Rightarrow> (Return (), s)
      | Pending \<Rightarrow> (Return (), s\<lparr>futures := (futures s)(waiter := Resolved)\<rparr>)
      | Resolved \<Rightarrow> (Raise InvalidStateError, s))"

definition chan_call :: "session \<Rightarrow> chan_call \<Rightarrow> unit result \<times> session" where
  "chan_call s c =
     (case chan s of
        None \<Rightarrow> (Raise AttributeError, s)
      | Some ch \<Rightarrow> (Return (), s\<lparr>chan := Some (ch\<lparr>calls := calls ch @ [c]\<rparr>)\<rparr>))"

subsection \<open>Waking readers and writers\<close>

definition block_read :: "session \<Rightarrow> dtype \<Rightarrow> nat result \<times> session" where
  "block_read s datatype =
     (case map_of (read_waiter s) datatype of
        None \<Rightarrow> (Raise (KeyError datatype), s)
      | Some (Some w) \<Rightarrow> (Raise RuntimeError, s)
      | Some None \<Rightarrow>
          (let (waiter, s1) = new_future s
           in (Return waiter,
               s1\<lparr>read_waiter := AList.update datatype (Some waiter) (read_waiter s1)\<rparr>)))"

definition unblock_read :: "session \<Rightarrow> dtype \<Rightarrow> unit result \<times> session" where
  "unblock_read s datatype =
     (case map_of (read_waiter s) datatype of
        None \<Rightarrow> (Raise (KeyError datatype), s)
      | Some None \<Rightarrow> (Return (), s)
      | Some (Some waiter) \<Rightarrow>
          (case wake s waiter of
             (Raise e, s1) \<Rightarrow> (Raise e, s1)
           | (Return _, s1) \<Rightarrow>
               (Return (), s1\<lparr>read_waiter := AList.update datatype None (read_waiter s1)\<rparr>)))"

fun unblock_each :: "session \<Rightarrow> dtype list \<Rightarrow> unit result \<times> session" where
  "unblock_each s [] = (Return (), s)"
| "unblock_each s (datatype # ks) =
     (case unblock_read s datatype of
        (Raise e, s1) \<Rightarrow> (Raise e, s1)
      | (Return _, s1) \<Rightarrow> unblock_each s1 ks)"

fun wake_each :: "session \<Rightarrow> nat list \<Rightarrow> unit result \<times> session" where
  "wake_each s [] = (Return (), s)"
| "wake_each s (waiter # ws) =
     (case wake s waiter of
        (Raise e, s1) \<Rightarrow> (Raise e, s1)
      | (Return _, s1) \<Rightarrow> wake_each s1 ws)"

definition unblock_drain :: "session \<Rightarrow> unit result \<times> session" where
  "unblock_drain s =
     (case wake_each s (drain_waiters s) of
        (Raise e, s1) \<Rightarrow> (Raise e, s1)
      | (Return _, s1) \<Rightarrow> (Return (), s1\<lparr>drain_waiters := []\<rparr>))"

subsection \<open>Callbacks of the channel\<close>

fun declare_datatypes :: "session \<Rightarrow> dtype list \<Rightarrow> session" where
  "declare_datatypes s [] = s"
| "declare_datatypes s (datatype # ds) =
     declare_datatypes
       (s\<lparr>recv_buf := AList.update datatype [] (recv_buf s),
          read_waiter := AList.update datatype None (read_waiter s)\<rparr>) ds"

definition connection_made :: "session \<Rightarrow> channel \<Rightarrow> session" where
  "connection_made s ch =
     declare_datatypes (s\<lparr>chan := Some ch, limit := Some (recv_window ch)\<rparr>)
       (read_datatypes ch)"

definition eof_received :: "session \<Rightarrow> bool result \<times> session" where
  "eof_received s =
     (let s1 = s\<lparr>eof_received_flag := True\<rparr>
      in case unblock_each s1 (map fst (read_waiter s1)) of
           (Raise e, s2) \<Rightarrow> (Raise e, s2)
         | (Return _, s2) \<Rightarrow> (Return True, s2))"

fun append_exc :: "session \<Rightarrow> nat \<Rightarrow> dtype list \<Rightarrow> unit result \<times> session" where
  "append_exc s e [] = (Return (), s)"
| "append_exc s e (datatype # ks) =
     (case map_of (recv_buf s) datatype of
        None \<Rightarrow> (Raise (KeyError datatype), s)
      | Some q \<Rightarrow>
          append_exc (s\<lparr>recv_buf := AList.update datatype (q @ [Exc e]) (recv_buf s)\<rparr>) e ks)"

definition connection_lost :: "session \<Rightarrow> nat option \<Rightarrow> unit result \<times> session" where
  "connection_lost s ex =
     (let s1 = s\<lparr>connection_lost_flag := True, exception := ex\<rparr>;
          r2 = (if \<not> eof_received_flag s1 then
                  (case (case ex of
                           None \<Rightarrow> (Return (), s1)
                         | Some e \<Rightarrow> append_exc s1 e (map fst (read_waiter s1))) of
                     (Raise e, s') \<Rightarrow> (Raise e, s')
                   | (Return _, s') \<Rightarrow>
                       (case eof_received s' of
                          (Raise e, s'') \<Rightarrow> (Raise e, s'')
                        | (Return _, s'') \<Rightarrow> (Return (), s'')))
                else (Return (), s1))
      in case r2 of
           (Raise e, s3) \<Rightarrow> (Raise e, s3)
         | (Return _, s3) \<Rightarrow>
             (if write_paused s3 then unblock_drain s3 else (Return (), s3)))"

definition data_received :: "session \<Rightarrow> payload \<Rightarrow> dtype \<Rightarrow> unit result \<times> session" where
  "data_received s data datatype =
     (case map_of (recv_buf s) datatype of
        None \<Rightarrow> (Raise (KeyError datatype), s)
      | Some q \<Rightarrow>
          (let s1 = s\<lparr>recv_buf := AList.update datatype (q @ [Data data]) (recv_buf s),
                      recv_buf_len := recv_buf_len s + int (length data)\<rparr>
           in case unblock_read s1 datatype of
                (Raise e, s2) \<Rightarrow> (Raise e, s2)
              | (Return _, s2) \<Rightarrow>
                  (case limit s2 of
                     None \<Rightarrow> (Raise TypeError, s2)
                   | Some l \<Rightarrow>
                       (if recv_buf_len s2 \<ge> l then chan_call s2 PauseReading
                        else (Return (), s2)))))"

definition at_eof :: "session \<Rightarrow> dtype \<Rightarrow> bool result" where
  "at_eof s datatype =
     (if \<not> eof_received_flag s then Return False
      else (case map_of (recv_buf s) datatype of
              None \<Rightarrow> Raise (KeyError datatype)
            | Some q \<Rightarrow> Return (q = [])))"

definition pause_writing :: "session \<Rightarrow> session" where
  "pause_writing s = s\<lparr>write_paused := True\<rparr>"

definition resume_writing :: "session \<Rightarrow> unit result \<times> session" where
  "resume_writing s = unblock_drain (s\<lparr>write_paused := False\<rparr>)"

subsection \<open>The coroutine \<^verbatim>\<open>read\<close>\<close>

text \<open>
  The inner loop \<^verbatim>\<open>while recv_buf and n != 0\<close> of \<^verbatim>\<open>read\<close>, on the queue of the
  datatype, the count \<open>n\<close>, the chunks collected in \<open>data\<close> and the counter
  \<^verbatim>\<open>_recv_buf_len\<close>. It ends in \<open>Stop\<close> (the condition fails, or a \<^verbatim>\<open>break\<close>) or
  raises the exception it pops from the queue. A Python list is true when it has an
  element, so \<^verbatim>\<open>if data\<close> is \<open>data \<noteq> []\<close>.
\<close>

datatype inner = Stop "item list" int "payload list" int | Raised nat "item list" int

fun read_inner :: "item list \<Rightarrow> int \<Rightarrow> payload list \<Rightarrow> int \<Rightarrow> inner" where
  "read_inner [] n data len = Stop [] n data len"
| "read_inner (Exc e # q) n data len =
     (if n = 0 then Stop (Exc e # q) n data len
      else if data \<noteq> [] then Stop (Exc e # q) n data len
      else Raised e q len)"
| "read_inner (Data d # q) n data len =
     (if n = 0 then Stop (Data d # q) n data len
      else
        (let l = int (length d)
         in if n > 0 \<and> l > n then
              Stop (Data (drop (nat n) d) # q) 0 (data @ [take (nat n) d]) (len - n)
            else read_inner q (n - l) (data @ [d]) (len - l)))"

text \<open>
  One pass of the outer \<^verbatim>\<open>while True\<close> loop, from its top to the return, the raise or
  the suspension in \<^verbatim>\<open>_block_read\<close>. The source binds \<^verbatim>\<open>recv_buf\<close> once, to the list
  object of the datatype; the lists are only mutated in place and the keys of the
  dictionary do not change after \<^verbatim>\<open>connection_made\<close>, so reading the queue of the
  datatype from the session at each pass reads that same object.
\<close>

definition store_queue :: "session \<Rightarrow> dtype \<Rightarrow> item list \<Rightarrow> int \<Rightarrow> session" where
  "store_queue s datatype q len =
     s\<lparr>recv_buf := AList.update datatype q (recv_buf s), recv_buf_len := len\<rparr>"

text \<open>\<^verbatim>\<open>if self._recv_buf_len < self._limit: self._chan.resume_reading()\<close>\<close>

definition maybe_resume :: "session \<Rightarrow> unit result \<times> session" where
  "maybe_resume s =
     (case limit s of
        None \<Rightarrow> (Raise TypeError, s)
      | Some l \<Rightarrow>
          (if recv_buf_len s < l then chan_call s ResumeReading else (Return (), s)))"

text \<open>The code after the outer loop: the join, and the incomplete read.\<close>

definition read_finish :: "int \<Rightarrow> bool \<Rightarrow> payload list \<Rightarrow> payload result" where
  "read_finish n exact data =
     (let buf = concat data
      in if n > 0 \<and> exact then Raise (IncompleteReadError buf (int (length buf) + n))
         else Return buf)"

definition read_pass ::
  "session \<Rightarrow> int \<Rightarrow> dtype \<Rightarrow> bool \<Rightarrow> payload list \<Rightarrow>
     (payload, int \<times> payload list) coro \<times> session" where
  "read_pass s n datatype exact data =
     (case map_of (recv_buf s) datatype of
        None \<Rightarrow> (Done (Raise (KeyError datatype)), s)
      | Some q \<Rightarrow>
          (case read_inner q n data (recv_buf_len s) of
             Raised e q' len' \<Rightarrow> (Done (Raise (ChannelError e)), store_queue s datatype q' len')
           | Stop q' n' data' len' \<Rightarrow>
               (case maybe_resume (store_queue s datatype q' len') of
                  (Raise e, s2) \<Rightarrow> (Done (Raise e), s2)
                | (Return _, s2) \<Rightarrow>
                    (if n' = 0 \<or> (n' > 0 \<and> data' \<noteq> [] \<and> \<not> exact) \<or> eof_received_flag s2
                     then (Done (read_finish n' exact data'), s2)
                     else (case block_read s2 datatype of
                             (Raise e, s3) \<Rightarrow> (Done (Raise e), s3)
                           | (Return waiter, s3) \<Rightarrow> (Blocked waiter (n', data'), s3))))))"

text \<open>
  The call: the two lookups before the loop, then the first pass.
  \<^verbatim>\<open>self._chan.get_encoding()\<close> needs the channel.
\<close>

definition read ::
  "session \<Rightarrow> int \<Rightarrow> dtype \<Rightarrow> bool \<Rightarrow> (payload, int \<times> payload list) coro \<times> session" where
  "read s n datatype exact =
     (case map_of (recv_buf s) datatype of
        None \<Rightarrow> (Done (Raise (KeyError datatype)), s)
      | Some _ \<Rightarrow>
          (case chan s of
             None \<Rightarrow> (Done (Raise AttributeError), s)
           | Some _ \<Rightarrow> read_pass s n datatype exact []))"

text \<open>
  The event loop resumes a parked coroutine once its future is done: with the result,
  \<^verbatim>\<open>yield from waiter\<close> returns and the loop goes round; cancelled, it raises
  \<^verbatim>\<open>CancelledError\<close> inside the coroutine. On a pending future the coroutine stays parked.
\<close>

definition read_resume ::
  "session \<Rightarrow> nat \<Rightarrow> int \<Rightarrow> dtype \<Rightarrow> bool \<Rightarrow> payload list \<Rightarrow>
     (payload, int \<times> payload list) coro \<times> session" where
  "read_resume s waiter n datatype exact data =
     (case futures s waiter of
        Pending \<Rightarrow> (Blocked waiter (n, data), s)
      | Cancelled \<Rightarrow> (Done (Raise CancelledError), s)
      | Resolved \<Rightarrow> read_pass s n datatype exact data)"

subsection \<open>The coroutine \<^verbatim>\<open>readline\<close>\<close>

text \<open>
  \<^verbatim>\<open>bytes.find\<close> and \<^verbatim>\<open>str.find\<close> for a separator of one unit: the lowest index
  holding it, or \<open>-1\<close>.
\<close>

fun find_unit :: "payload \<Rightarrow> nat \<Rightarrow> int" where
  "find_unit [] c = - 1"
| "find_unit (x # xs) c =
     (if x = c then 0
      else (let i = find_unit xs c in if i < 0 then - 1 else i + 1))"

definition sep :: nat where
  "sep = 10"

text \<open>
  The inner loop \<^verbatim>\<open>while recv_buf\<close> of \<^verbatim>\<open>readline\<close>. It leaves by falling out of the
  loop on an empty queue (\<open>Exhausted\<close>), by the \<^verbatim>\<open>return\<close> in front of an exception
  (\<open>Deferred\<close>), by the \<^verbatim>\<open>return\<close> after a separator (\<open>Line\<close>, which checks the
  watermark first), or by raising the exception it pops.
\<close>

datatype line_inner =
    Exhausted "payload list" int
  | Deferred "item list" "payload list" int
  | Line "item list" "payload list" int
  | LRaised nat "item list" int

fun readline_inner :: "item list \<Rightarrow> payload list \<Rightarrow> int \<Rightarrow> line_inner" where
  "readline_inner [] data len = Exhausted data len"
| "readline_inner (Exc e # q) data len =
     (if data \<noteq> [] then Deferred (Exc e # q) data len else LRaised e q len)"
| "readline_inner (Data d # q) data len =
     (let idx = find_unit d sep + 1
      in if idx > 0 then
           Line (Data (drop (nat idx) d) # q) (data @ [take (nat idx) d]) (len - idx)
         else readline_inner q (data @ [d]) (len - int (length d)))"

definition readline_pass ::
  "session \<Rightarrow> dtype \<Rightarrow> payload list \<Rightarrow> (payload, payload list) coro \<times> session" where
  "readline_pass s datatype data =
     (case map_of (recv_buf s) datatype of
        None \<Rightarrow> (Done (Raise (KeyError datatype)), s)
      | Some q \<Rightarrow>
          (case readline_inner q data (recv_buf_len s) of
             LRaised e q' len' \<Rightarrow> (Done (Raise (ChannelError e)), store_queue s datatype q' len')
           | Deferred q' data' len' \<Rightarrow>
               (Done (Return (concat data')), store_queue s datatype q' len')
           | Line q' data' len' \<Rightarrow>
               (case maybe_resume (store_queue s datatype q' len') of
                  (Raise e, s2) \<Rightarrow> (Done (Raise e), s2)
                | (Return _, s2) \<Rightarrow> (Done (Return (concat data')), s2))
           | Exhausted data' len' \<Rightarrow>
               (case maybe_resume (store_queue s datatype [] len') of
                  (Raise e, s2) \<Rightarrow> (Done (Raise e), s2)
                | (Return _, s2) \<Rightarrow>
                    (if eof_received_flag s2 then (Done (Return (concat data')), s2)
                     else (case block_read s2 datatype of
                             (Raise e, s3) \<Rightarrow> (Done (Raise e), s3)
                           | (Return waiter, s3) \<Rightarrow> (Blocked waiter data', s3))))))"

definition readline :: "session \<Rightarrow> dtype \<Rightarrow> (payload, payload list) coro \<times> session" where
  "readline s datatype =
     (case map_of (recv_buf s) datatype of
        None \<Rightarrow> (Done (Raise (KeyError datatype)), s)
      | Some _ \<Rightarrow>
          (case chan s of
             None \<Rightarrow> (Done (Raise AttributeError), s)
           | Some _ \<Rightarrow> readline_pass s datatype []))"

definition readline_resume ::
  "session \<Rightarrow> nat \<Rightarrow> dtype \<Rightarrow> payload list \<Rightarrow> (payload, payload list) coro \<times> session" where
  "readline_resume s waiter datatype data =
     (case futures s waiter of
        Pending \<Rightarrow> (Blocked waiter data, s)
      | Cancelled \<Rightarrow> (Done (Raise CancelledError), s)
      | Resolved \<Rightarrow> readline_pass s datatype data)"

subsection \<open>The coroutine \<^verbatim>\<open>drain\<close>\<close>

text \<open>The second \<^verbatim>\<open>if\<close> of \<^verbatim>\<open>drain\<close>, reached at once or after the wait.\<close>

definition drain_finish :: "session \<Rightarrow> unit result" where
  "drain_finish s =
     (if connection_lost_flag s then
        (let ex = (case exception s of
                     None \<Rightarrow> if write_paused s then Some BrokenPipeError else None
                   | Some k \<Rightarrow> Some (ChannelError k))
         in case ex of None \<Rightarrow> Return () | Some e \<Rightarrow> Raise e)
      else Return ())"

definition drain :: "session \<Rightarrow> (unit, unit) coro \<times> session" where
  "drain s =
     (if write_paused s \<and> \<not> connection_lost_flag s then
        (let (waiter, s1) = new_future s
         in (Blocked waiter (), s1\<lparr>drain_waiters := drain_waiters s1 @ [waiter]\<rparr>))
      else (Done (drain_finish s), s))"

definition drain_resume :: "session \<Rightarrow> nat \<Rightarrow> (unit, unit) coro \<times> session" where
  "drain_resume s waiter =
     (case futures s waiter of
        Pending \<Rightarrow> (Blocked waiter (), s)
      | Cancelled \<Rightarrow> (Done (Raise CancelledError), s)
      | Resolved \<Rightarrow> (Done (drain_finish s), s))"

subsection \<open>What a queue holds\<close>

text \<open>The queue of a datatype; the units and the total length of its data chunks.\<close>

definition queue :: "session \<Rightarrow> dtype \<Rightarrow> item list" where
  "queue s datatype = (case map_of (recv_buf s) datatype of None \<Rightarrow> [] | Some q \<Rightarrow> q)"

fun payload_of :: "item list \<Rightarrow> payload" where
  "payload_of [] = []"
| "payload_of (Data d # q) = d @ payload_of q"
| "payload_of (Exc e # q) = payload_of q"

fun chunk_total :: "item list \<Rightarrow> int" where
  "chunk_total [] = 0"
| "chunk_total (Data d # q) = int (length d) + chunk_total q"
| "chunk_total (Exc e # q) = chunk_total q"

definition buffered :: "session \<Rightarrow> int" where
  "buffered s = sum_list (map (\<lambda>kq. chunk_total (snd kq)) (recv_buf s))"

text \<open>
  The counter accounts for the queues: the dictionary has each key once, and the counter
  is the total length of the data chunks of all its queues.
\<close>

definition accounted :: "session \<Rightarrow> bool" where
  "accounted s \<longleftrightarrow> distinct (map fst (recv_buf s)) \<and> recv_buf_len s = buffered s"

definition chan_calls :: "session \<Rightarrow> chan_call list" where
  "chan_calls s = (case chan s of None \<Rightarrow> [] | Some ch \<Rightarrow> calls ch)"

subsection \<open>Waiter slots\<close>

text \<open>
  A reader is parked on future \<open>w\<close> in the slot of a datatype. The slots and the drain
  waiters are in order when the channel is connected, every datatype with a slot has a
  queue, the futures in the slots and among the drain waiters were created by the
  session and have no result yet, and no future stands in two places. A session is well
  formed when, moreover, no reader is parked after the end of file.
\<close>

definition waiting :: "session \<Rightarrow> dtype \<Rightarrow> nat \<Rightarrow> bool" where
  "waiting s datatype w \<longleftrightarrow> map_of (read_waiter s) datatype = Some (Some w)"

definition slots_ok :: "session \<Rightarrow> bool" where
  "slots_ok s \<longleftrightarrow>
     chan s \<noteq> None \<and> limit s \<noteq> None \<and>
     fst ` set (read_waiter s) \<subseteq> fst ` set (recv_buf s) \<and>
     (\<forall>k w. waiting s k w \<longrightarrow>
        futures s w \<noteq> Resolved \<and> w < next_future s \<and> w \<notin> set (drain_waiters s)) \<and>
     (\<forall>k k' w. waiting s k w \<longrightarrow> waiting s k' w \<longrightarrow> k = k') \<and>
     (\<forall>w \<in> set (drain_waiters s). futures s w \<noteq> Resolved \<and> w < next_future s) \<and>
     distinct (drain_waiters s)"

definition well_formed :: "session \<Rightarrow> bool" where
  "well_formed s \<longleftrightarrow> slots_ok s \<and> (eof_received_flag s \<longrightarrow> (\<forall>k w. \<not> waiting s k w))"

subsection \<open>Interleavings\<close>

text \<open>
  \<^verbatim>\<open>Future.cancel()\<close>, which the event loop applies to the future of a task it
  cancels: a pending future becomes cancelled, a done one stays as it is.
\<close>

definition cancel :: "session \<Rightarrow> nat \<Rightarrow> session" where
  "cancel s waiter =
     (case futures s waiter of
        Pending \<Rightarrow> s\<lparr>futures := (futures s)(waiter := Cancelled)\<rparr>
      | _ \<Rightarrow> s)"

text \<open>
  The states a session goes through once the channel is connected: the callbacks, in
  any order and with any arguments, the passes of \<^verbatim>\<open>read\<close> and \<^verbatim>\<open>readline\<close> (a
  pass starts a call or resumes a parked one, so its local variables are arbitrary),
  \<^verbatim>\<open>drain\<close>, and cancellations. A step that raises still leaves its state behind.
\<close>

inductive reachable :: "session \<Rightarrow> bool" where
  connected: "reachable (connection_made init_session ch)"
| received: "reachable s \<Longrightarrow> data_received s d datatype = (r, s') \<Longrightarrow> reachable s'"
| eof: "reachable s \<Longrightarrow> eof_received s = (rb, s') \<Longrightarrow> reachable s'"
| lost: "reachable s \<Longrightarrow> connection_lost s ex = (r, s') \<Longrightarrow> reachable s'"
| read_step: "reachable s \<Longrightarrow> read_pass s n datatype exact data = (c, s') \<Longrightarrow> reachable s'"
| readline_step: "reachable s \<Longrightarrow> readline_pass s datatype data = (cl, s') \<Longrightarrow> reachable s'"
| paused: "reachable s \<Longrightarrow> reachable (pause_writing s)"
| resumed: "reachable s \<Longrightarrow> resume_writing s = (r, s') \<Longrightarrow> reachable s'"
| drained: "reachable s \<Longrightarrow> drain s = (cd, s') \<Longrightarrow> reachable s'"
| cancelled: "reachable s \<Longrightarrow> reachable (cancel s waiter)"

text \<open>
  One call of \<^verbatim>\<open>read\<close> from its first pass to its end, over any number of
  suspensions. Between a suspension and the resumption anything may have happened to
  the session, so the state the coroutine resumes in is arbitrary, but for the future
  it waits on being done.
\<close>

inductive read_run ::
  "dtype \<Rightarrow> bool \<Rightarrow> int \<Rightarrow> payload list \<Rightarrow> session \<Rightarrow> payload result \<Rightarrow> session \<Rightarrow> bool"
  for dt :: dtype and exact :: bool where
  finished:
    "read_pass s n dt exact data = (Done r, s') \<Longrightarrow>
     read_run dt exact n data s r s'"
| woken:
    "read_pass s n dt exact data = (Blocked waiter (n', data'), s1) \<Longrightarrow>
     futures s2 waiter = Resolved \<Longrightarrow>
     read_run dt exact n' data' s2 r s' \<Longrightarrow>
     read_run dt exact n data s r s'"
| thrown:
    "read_pass s n dt exact data = (Blocked waiter (n', data'), s1) \<Longrightarrow>
     futures s2 waiter = Cancelled \<Longrightarrow>
     read_run dt exact n data s (Raise CancelledError) s2"

subsection \<open>A producer and a reader on one datatype\<close>

text \<open>
  A script of events on one datatype: the channel delivers a chunk or the end of file,
  the reader calls \<^verbatim>\<open>read\<close> or \<^verbatim>\<open>readline\<close> (when it is not parked in a call),
  or the event loop resumes the parked reader (when its future has its result). The
  configuration holds the session, the parked call if any, and the results of the
  calls that ended, in order. What a call delivers is what it returns, or the partial
  data its \<^verbatim>\<open>IncompleteReadError\<close> carries.
\<close>

datatype rcall = ReadCall int bool | ReadlineCall

datatype event = Produce payload | Eof | Call rcall | Resume

datatype frame = ReadFrame nat int bool "payload list" | LineFrame nat "payload list"


fun delivered :: "payload result \<Rightarrow> payload" where
  "delivered (Return buf) = buf"
| "delivered (Raise (IncompleteReadError partial expected)) = partial"
| "delivered (Raise _) = []"

fun frame_payload :: "frame option \<Rightarrow> payload" where
  "frame_payload None = []"
| "frame_payload (Some (ReadFrame waiter n exact data)) = concat data"
| "frame_payload (Some (LineFrame waiter data)) = concat data"





fun produced :: "event list \<Rightarrow> payload" where
  "produced [] = []"
| "produced (Produce d # evs) = d @ produced evs"
| "produced (ev # evs) = produced evs"

subsection \<open>An example channel\<close>

text \<open>
  A channel that delivers bytes, with a receive window of 10 units and one extended
  datatype; the scenarios below run on it.
\<close>

definition example_channel :: channel where
  "example_channel =
     \<lparr>encoding = False, recv_window = 10, read_datatypes = [Some 1], calls = []\<rparr>"

text \<open>The connection is lost with an error before any data or end of file.\<close>

definition lost_session :: session where
  "lost_session = snd (connection_lost (connection_made init_session example_channel) (Some 7))"


text \<open>
  Writing is paused, a writer calls \<^verbatim>\<open>drain\<close> and is parked, and the connection is
  lost without an error.
\<close>

definition drain_lost_session :: session where
  "drain_lost_session =
     snd (connection_lost
       (snd (drain (pause_writing (connection_made init_session example_channel)))) None)"

text \<open>
  With the window of 10 units: a chunk of 8 units arrives, then one of 4, and 9 units
  are read.
\<close>

definition filled_session :: session where
  "filled_session =
     snd (data_received
       (snd (data_received (connection_made init_session example_channel)
          [1, 2, 3, 4, 5, 6, 7, 8] None))
       [9, 10, 11, 12] None)"

definition watermark_session :: session where
  "watermark_session = snd (read filled_session 9 None False)"



text \<open>
  A chunk of 12 units arrives, which makes the session pause the channel, then the
  connection is lost with an error.
\<close>

definition paused_lost_session :: session where
  "paused_lost_session =
     snd (connection_lost
       (snd (data_received (connection_made init_session example_channel)
          [1, 2, 3, 4, 5, 6, 7, 8, 9, 1, 2, 3] None))
       (Some 7))"

text \<open>An exact read of 5 units is called on the fresh connection and is parked.\<close>

definition parked_session :: session where
  "parked_session = snd (read (connection_made init_session example_channel) 5 None True)"

section \<open>Properties\<close>

subsection \<open>Searching a chunk\<close>

lemma find_unit_bounds: "- 1 \<le> find_unit d c \<and> find_unit d c < int (length d)"
  by (induction d) (auto simp: Let_def)

lemma find_unit_neg_iff: "find_unit d c < 0 \<longleftrightarrow> c \<notin> set d"
proof (induction d)
  case Nil
  then show ?case by simp
next
  case (Cons x d)
  have "- 1 \<le> find_unit d c" using find_unit_bounds by blast
  with Cons show ?case by (auto simp: Let_def)
qed

lemma find_unit_hit:
  "c \<in> set d \<Longrightarrow> d ! nat (find_unit d c) = c \<and> c \<notin> set (take (nat (find_unit d c)) d)"
proof (induction d)
  case Nil
  then show ?case by simp
next
  case (Cons x d)
  show ?case
  proof (cases "x = c")
    case True
    then show ?thesis by simp
  next
    case False
    with Cons.prems have in_d: "c \<in> set d" by simp
    then have nn: "0 \<le> find_unit d c" using find_unit_neg_iff [of d c] by linarith
    from nn have eq: "nat (find_unit d c + 1) = Suc (nat (find_unit d c))" by linarith
    from False nn Cons.IH [OF in_d] show ?thesis by (simp add: Let_def eq)
  qed
qed

lemma readline_inner_scan:
  "sep \<notin> set (concat ds) \<Longrightarrow>
   readline_inner (map Data ds @ q) data len =
   readline_inner q (data @ ds) (len - int (length (concat ds)))"
proof (induction ds arbitrary: data len)
  case Nil
  then show ?case by simp
next
  case (Cons d ds)
  from Cons.prems have "sep \<notin> set d" by simp
  then have "find_unit d sep < 0" by (simp add: find_unit_neg_iff)
  moreover from Cons.prems have "sep \<notin> set (concat ds)" by simp
  ultimately show ?case using Cons.IH [of "data @ [d]" "len - int (length d)"]
    by (simp add: Let_def algebra_simps)
qed

lemma readline_inner_hit:
  "sep \<in> set d \<Longrightarrow>
   readline_inner (Data d # r) data len =
   Line (Data (drop (Suc (nat (find_unit d sep))) d) # r)
        (data @ [take (Suc (nat (find_unit d sep))) d])
        (len - (find_unit d sep + 1))"
proof -
  assume a: "sep \<in> set d"
  then have nn: "0 \<le> find_unit d sep" using find_unit_neg_iff [of d sep] by linarith
  then have "nat (find_unit d sep + 1) = Suc (nat (find_unit d sep))" by linarith
  with nn show ?thesis by (simp add: Let_def)
qed

subsection \<open>Passes on a connected session\<close>

lemma queue_store_queue [simp]: "queue (store_queue s dt q len) dt = q"
  by (simp add: queue_def store_queue_def update_conv')

lemma maybe_resume_connected:
  assumes "chan s = Some ch" and "limit s = Some l"
  shows "\<exists>s'. maybe_resume s = (Return (), s') \<and> recv_buf s' = recv_buf s \<and>
           recv_buf_len s' = recv_buf_len s \<and> eof_received_flag s' = eof_received_flag s \<and>
           read_waiter s' = read_waiter s \<and> futures s' = futures s \<and>
           next_future s' = next_future s \<and> limit s' = limit s \<and>
           chan_calls s' = chan_calls s @ (if recv_buf_len s < l then [ResumeReading] else [])"
  using assms by (simp add: maybe_resume_def chan_call_def chan_calls_def)

subsection \<open>Reading a line\<close>

lemma readline_call:
  "map_of (recv_buf s) dt = Some q \<Longrightarrow> chan s = Some ch \<Longrightarrow>
   readline s dt = readline_pass s dt []"
  by (simp add: readline_def)

lemma readline_pass_line:
  assumes buf: "map_of (recv_buf s) dt = Some (map Data ds @ Data d # r)"
    and scan: "sep \<notin> set (concat ds)" and hit: "sep \<in> set d"
    and ch: "chan s = Some ch" and lim: "limit s = Some l"
  shows "\<exists>s'. readline_pass s dt data =
            (Done (Return (concat data @ concat ds @ take (Suc (nat (find_unit d sep))) d)), s') \<and>
          queue s' dt = Data (drop (Suc (nat (find_unit d sep))) d) # r"
proof -
  let ?i = "Suc (nat (find_unit d sep))"
  let ?len = "recv_buf_len s - int (length (concat ds)) - (find_unit d sep + 1)"
  let ?s1 = "store_queue s dt (Data (drop ?i d) # r) ?len"
  have inner: "readline_inner (map Data ds @ Data d # r) data (recv_buf_len s) =
      Line (Data (drop ?i d) # r) ((data @ ds) @ [take ?i d]) ?len"
    using readline_inner_scan [OF scan] readline_inner_hit [OF hit] by simp
  have "chan ?s1 = Some ch" and "limit ?s1 = Some l"
    using ch lim by (simp_all add: store_queue_def)
  from maybe_resume_connected [OF this] obtain s' where
    mr: "maybe_resume ?s1 = (Return (), s')" and rb: "recv_buf s' = recv_buf ?s1"
    by blast
  have "queue s' dt = queue ?s1 dt" using rb by (simp add: queue_def)
  then have q: "queue s' dt = Data (drop ?i d) # r" by simp
  have "readline_pass s dt data = (Done (Return (concat ((data @ ds) @ [take ?i d]))), s')"
    using buf inner mr by (simp add: readline_pass_def)
  with q show ?thesis by auto
qed

lemma readline_pass_eof:
  assumes buf: "map_of (recv_buf s) dt = Some (map Data ds)"
    and scan: "sep \<notin> set (concat ds)" and eof: "eof_received_flag s"
    and ch: "chan s = Some ch" and lim: "limit s = Some l"
  shows "\<exists>s'. readline_pass s dt data = (Done (Return (concat data @ concat ds)), s') \<and>
          queue s' dt = []"
proof -
  let ?len = "recv_buf_len s - int (length (concat ds))"
  let ?s1 = "store_queue s dt [] ?len"
  have inner: "readline_inner (map Data ds) data (recv_buf_len s) = Exhausted (data @ ds) ?len"
    using readline_inner_scan [OF scan, of "[]" data "recv_buf_len s"] by simp
  have "chan ?s1 = Some ch" and "limit ?s1 = Some l"
    using ch lim by (simp_all add: store_queue_def)
  from maybe_resume_connected [OF this] obtain s' where
    mr: "maybe_resume ?s1 = (Return (), s')" and rb: "recv_buf s' = recv_buf ?s1"
    and ef: "eof_received_flag s' = eof_received_flag ?s1"
    by blast
  have "queue s' dt = queue ?s1 dt" using rb by (simp add: queue_def)
  then have q: "queue s' dt = []" by simp
  have "eof_received_flag s'" using ef eof by (simp add: store_queue_def)
  then have "readline_pass s dt data = (Done (Return (concat (data @ ds))), s')"
    using buf inner mr by (simp add: readline_pass_def)
  with q show ?thesis by auto
qed

lemma take_hit_last:
  assumes "sep \<in> set d"
  shows "last (take (Suc (nat (find_unit d sep))) d) = sep \<and>
         sep \<notin> set (take (nat (find_unit d sep)) d)"
proof -
  let ?i = "nat (find_unit d sep)"
  have "find_unit d sep < int (length d)" using find_unit_bounds by blast
  moreover have "0 \<le> find_unit d sep" using assms find_unit_neg_iff [of d sep] by linarith
  ultimately have lt: "?i < length d" by linarith
  then have "take (Suc ?i) d = take ?i d @ [d ! ?i]" by (simp add: take_Suc_conv_app_nth)
  with find_unit_hit [OF assms] show ?thesis by simp
qed

text \<open>
  Claim C4. \<^verbatim>\<open>readline\<close> drains the chunks that hold no separator and scans the
  next one: when that chunk holds a separator, the call returns what it had accumulated,
  the drained chunks and the head chunk up to and including its first separator, and
  leaves the rest of the chunk (empty or not) at the head of the queue; when the queue
  runs out after the end of file, it returns what it accumulated, without error. A call
  starts with nothing accumulated. After the chunks \<^verbatim>\<open>AB\<close>, \<^verbatim>\<open>C\n\<close>, \<^verbatim>\<open>DE\<close> the
  first call returns \<^verbatim>\<open>ABC\n\<close>, and a call after the end of file returns \<^verbatim>\<open>DE\<close>.
\<close>

theorem readline_returns_line:
  assumes "map_of (recv_buf s) dt = Some (map Data ds @ q)"
    and "sep \<notin> set (concat ds)"
    and "chan s = Some ch" and "limit s = Some l"
  shows
    "(\<forall>d r. q = Data d # r \<and> sep \<in> set d \<longrightarrow>
        (\<exists>s'. readline_pass s dt data =
                 (Done (Return (concat data @ concat ds @ take (Suc (nat (find_unit d sep))) d)), s') \<and>
               queue s' dt = Data (drop (Suc (nat (find_unit d sep))) d) # r) \<and>
        last (take (Suc (nat (find_unit d sep))) d) = sep \<and>
        sep \<notin> set (take (nat (find_unit d sep)) d)) \<and>
     (q = [] \<and> eof_received_flag s \<longrightarrow>
        (\<exists>s'. readline_pass s dt data = (Done (Return (concat data @ concat ds)), s') \<and>
               queue s' dt = [])) \<and>
     readline s dt = readline_pass s dt [] \<and>
     (let s0 = connection_made init_session example_channel;
          s1 = snd (data_received s0 [65, 66] None);
          s2 = snd (data_received s1 [67, sep] None);
          s3 = snd (data_received s2 [68, 69] None);
          (c4, s4) = readline s3 None;
          s5 = snd (eof_received s4);
          (c6, s6) = readline s5 None
      in c4 = Done (Return ([65, 66] @ [67, sep])) \<and> c6 = Done (Return [68, 69]))"
proof -
  have a: "\<forall>d r. q = Data d # r \<and> sep \<in> set d \<longrightarrow>
        (\<exists>s'. readline_pass s dt data =
                 (Done (Return (concat data @ concat ds @ take (Suc (nat (find_unit d sep))) d)), s') \<and>
               queue s' dt = Data (drop (Suc (nat (find_unit d sep))) d) # r) \<and>
        last (take (Suc (nat (find_unit d sep))) d) = sep \<and>
        sep \<notin> set (take (nat (find_unit d sep)) d)"
    using assms readline_pass_line take_hit_last by blast
  have b: "q = [] \<and> eof_received_flag s \<longrightarrow>
        (\<exists>s'. readline_pass s dt data = (Done (Return (concat data @ concat ds)), s') \<and>
               queue s' dt = [])"
    using assms readline_pass_eof [of s dt ds ch l data] by auto
  have c: "readline s dt = readline_pass s dt []"
    using assms readline_call by blast
  have d: "(let s0 = connection_made init_session example_channel;
          s1 = snd (data_received s0 [65, 66] None);
          s2 = snd (data_received s1 [67, sep] None);
          s3 = snd (data_received s2 [68, 69] None);
          (c4, s4) = readline s3 None;
          s5 = snd (eof_received s4);
          (c6, s6) = readline s5 None
      in c4 = Done (Return ([65, 66] @ [67, sep])) \<and> c6 = Done (Return [68, 69]))"
    by code_simp
  from a b c d show ?thesis by blast
qed

theorem readline_returns_line_witness:
  "\<exists>s'. readline_pass
           (snd (data_received (snd (data_received (snd (data_received
              (connection_made init_session example_channel) [65, 66] None)) [67, 10] None))
              [68, 69] None)) None [] = (Done (Return [65, 66, 67, 10]), s') \<and>
        queue s' None = [Data [], Data [68, 69]]"
proof -
  let ?s = "snd (data_received (snd (data_received (snd (data_received
              (connection_made init_session example_channel) [65, 66] None)) [67, 10] None))
              [68, 69] None)"
  have h1: "map_of (recv_buf ?s) None = Some (map Data [[65, 66]] @ [Data [67, 10], Data [68, 69]])"
    by code_simp
  have h2: "sep \<notin> set (concat [[65, 66]])"
    by (simp add: sep_def)
  have h3: "chan ?s = Some example_channel"
    by code_simp
  have h4: "limit ?s = Some 10"
    by code_simp
  from readline_returns_line [OF h1 h2 h3 h4, of "[]"]
  have "\<forall>d r. [Data [67, 10], Data [68, 69]] = Data d # r \<and> sep \<in> set d \<longrightarrow>
        (\<exists>s'. readline_pass ?s None [] =
                 (Done (Return (concat [] @ concat [[65, 66]] @ take (Suc (nat (find_unit d sep))) d)), s') \<and>
               queue s' None = Data (drop (Suc (nat (find_unit d sep))) d) # r)"
    by blast
  then show ?thesis
    by (simp add: sep_def)
qed

subsection \<open>End of file\<close>

text \<open>
  Claim C9, as stated: \<^verbatim>\<open>at_eof\<close> is true exactly when the end of file was received
  and the queue of the datatype holds no further data. It fails on a session whose
  connection was lost with an error: the end of file is recorded and the queue of the
  primary datatype holds no data, only the error that waits to be raised, and
  \<^verbatim>\<open>at_eof\<close> is false.
\<close>

theorem at_eof_pending_error_counterexample:
  "eof_received_flag lost_session \<and> queue lost_session None = [Exc 7] \<and>
   payload_of (queue lost_session None) = [] \<and> at_eof lost_session None = Return False"
  by code_simp

text \<open>
  Claim C9, amended: \<^verbatim>\<open>at_eof\<close> returns true exactly when the end of file was received
  and the queue of the datatype is empty, holding neither a data chunk nor an error that
  is still to be raised.
\<close>

theorem at_eof_iff_queue_empty:
  "at_eof s dt = Return True \<longleftrightarrow> eof_received_flag s \<and> map_of (recv_buf s) dt = Some []"
  by (auto simp: at_eof_def split: option.splits)

theorem at_eof_iff_queue_empty_witness:
  "at_eof (snd (eof_received (connection_made init_session example_channel))) None = Return True"
proof -
  let ?s = "snd (eof_received (connection_made init_session example_channel))"
  have "eof_received_flag ?s \<and> map_of (recv_buf ?s) None = Some []" by code_simp
  then show ?thesis using at_eof_iff_queue_empty [of ?s None] by blast
qed

subsection \<open>Conservation\<close>


lemma read_inner_raised:
  "read_inner q n data len = Raised e q' len' \<Longrightarrow>
   data = [] \<and> q = Exc e # q' \<and> len' = len \<and> n \<noteq> 0"
proof (induction q n data len rule: read_inner.induct)
  case (1 n data len)
  then show ?case by simp
next
  case (2 e0 q n data len)
  then show ?case by (auto split: if_splits)
next
  case (3 d q n data len)
  show ?case
  proof (cases "n = 0")
    case True
    with "3.prems" show ?thesis by simp
  next
    case nz: False
    show ?thesis
    proof (cases "n > 0 \<and> int (length d) > n")
      case True
      with nz "3.prems" show ?thesis by (auto simp: Let_def)
    next
      case False
      with nz "3.prems" have "read_inner q (n - int (length d)) (data @ [d]) (len - int (length d)) =
          Raised e q' len'" by (auto simp: Let_def)
      from "3.IH" [OF nz refl False this] show ?thesis by simp
    qed
  qed
qed

lemma readline_inner_payload:
  "readline_inner q data len = r \<Longrightarrow>
   (case r of
      Exhausted data' len' \<Rightarrow> concat data' = concat data @ payload_of q
    | Deferred q' data' len' \<Rightarrow> concat data' @ payload_of q' = concat data @ payload_of q
    | Line q' data' len' \<Rightarrow> concat data' @ payload_of q' = concat data @ payload_of q
    | LRaised e q' len' \<Rightarrow> data = [] \<and> q = Exc e # q' \<and> len' = len)"
proof (induction q data len arbitrary: r rule: readline_inner.induct)
  case (1 data len)
  then show ?case by auto
next
  case (2 e q data len)
  then show ?case by auto
next
  case (3 d q data len)
  show ?case
  proof (cases "find_unit d sep + 1 > 0")
    case True
    with "3.prems" show ?thesis by (auto simp: Let_def)
  next
    case False
    with "3.prems" have "readline_inner q (data @ [d]) (len - int (length d)) = r"
      by (auto simp: Let_def)
    from "3.IH" [OF refl False this] show ?thesis
      by (cases r) auto
  qed
qed

subsection \<open>What a pass leaves unchanged\<close>

lemma chan_call_fields:
  "chan_call s c = (r, s') \<Longrightarrow>
   recv_buf s' = recv_buf s \<and> recv_buf_len s' = recv_buf_len s \<and>
   eof_received_flag s' = eof_received_flag s \<and> read_waiter s' = read_waiter s \<and>
   futures s' = futures s \<and> next_future s' = next_future s \<and> limit s' = limit s \<and>
   connection_lost_flag s' = connection_lost_flag s \<and> exception s' = exception s \<and>
   write_paused s' = write_paused s \<and> drain_waiters s' = drain_waiters s \<and>
   (chan s' = None) = (chan s = None)"
  by (auto simp: chan_call_def split: option.splits)

lemma maybe_resume_fields:
  "maybe_resume s = (r, s') \<Longrightarrow>
   recv_buf s' = recv_buf s \<and> recv_buf_len s' = recv_buf_len s \<and>
   eof_received_flag s' = eof_received_flag s \<and> read_waiter s' = read_waiter s \<and>
   futures s' = futures s \<and> next_future s' = next_future s \<and> limit s' = limit s \<and>
   connection_lost_flag s' = connection_lost_flag s \<and> exception s' = exception s \<and>
   write_paused s' = write_paused s \<and> drain_waiters s' = drain_waiters s \<and>
   (chan s' = None) = (chan s = None)"
  unfolding maybe_resume_def
  by (cases "limit s"; cases "recv_buf_len s < the (limit s)") (auto dest: chan_call_fields)

lemma block_read_fields:
  "block_read s dt = (r, s') \<Longrightarrow>
   recv_buf s' = recv_buf s \<and> recv_buf_len s' = recv_buf_len s \<and>
   eof_received_flag s' = eof_received_flag s \<and> limit s' = limit s \<and>
   connection_lost_flag s' = connection_lost_flag s \<and> exception s' = exception s \<and>
   write_paused s' = write_paused s \<and> drain_waiters s' = drain_waiters s \<and>
   chan s' = chan s"
  by (auto simp: block_read_def new_future_def split: option.splits)

lemma store_queue_fields [simp]:
  "recv_buf (store_queue s dt q len) = AList.update dt q (recv_buf s)"
  "recv_buf_len (store_queue s dt q len) = len"
  "eof_received_flag (store_queue s dt q len) = eof_received_flag s"
  "read_waiter (store_queue s dt q len) = read_waiter s"
  "futures (store_queue s dt q len) = futures s"
  "next_future (store_queue s dt q len) = next_future s"
  "limit (store_queue s dt q len) = limit s"
  "chan (store_queue s dt q len) = chan s"
  "connection_lost_flag (store_queue s dt q len) = connection_lost_flag s"
  "exception (store_queue s dt q len) = exception s"
  "write_paused (store_queue s dt q len) = write_paused s"
  "drain_waiters (store_queue s dt q len) = drain_waiters s"
  by (simp_all add: store_queue_def)

text \<open>The shape of a pass of \<^verbatim>\<open>read\<close>, case by case.\<close>

lemma read_pass_cases:
  assumes "read_pass s n dt exact data = (c, s')"
  obtains
    (nokey) "map_of (recv_buf s) dt = None" "c = Done (Raise (KeyError dt))" "s' = s"
  | (raised) q e q' where "map_of (recv_buf s) dt = Some q"
      "read_inner q n data (recv_buf_len s) = Raised e q' (recv_buf_len s)"
      "c = Done (Raise (ChannelError e))" "s' = store_queue s dt q' (recv_buf_len s)"
  | (resume_failed) q q' n' data' len' e where "map_of (recv_buf s) dt = Some q"
      "read_inner q n data (recv_buf_len s) = Stop q' n' data' len'"
      "maybe_resume (store_queue s dt q' len') = (Raise e, s')" "c = Done (Raise e)"
  | (finish) q q' n' data' len' where "map_of (recv_buf s) dt = Some q"
      "read_inner q n data (recv_buf_len s) = Stop q' n' data' len'"
      "maybe_resume (store_queue s dt q' len') = (Return (), s')"
      "n' = 0 \<or> (n' > 0 \<and> data' \<noteq> [] \<and> \<not> exact) \<or> eof_received_flag s"
      "c = Done (read_finish n' exact data')"
  | (block_failed) q q' n' data' len' s2 e where "map_of (recv_buf s) dt = Some q"
      "read_inner q n data (recv_buf_len s) = Stop q' n' data' len'"
      "maybe_resume (store_queue s dt q' len') = (Return (), s2)"
      "\<not> (n' = 0 \<or> (n' > 0 \<and> data' \<noteq> [] \<and> \<not> exact) \<or> eof_received_flag s)"
      "block_read s2 dt = (Raise e, s')" "c = Done (Raise e)"
  | (blocked) q q' n' data' len' s2 w where "map_of (recv_buf s) dt = Some q"
      "read_inner q n data (recv_buf_len s) = Stop q' n' data' len'"
      "maybe_resume (store_queue s dt q' len') = (Return (), s2)"
      "\<not> (n' = 0 \<or> (n' > 0 \<and> data' \<noteq> [] \<and> \<not> exact) \<or> eof_received_flag s)"
      "block_read s2 dt = (Return w, s')" "c = Blocked w (n', data')"
proof (cases "map_of (recv_buf s) dt")
  case None
  show ?thesis
    by (rule nokey) (use None assms in \<open>simp_all add: read_pass_def\<close>)
next
  case (Some q)
  show ?thesis
  proof (cases "read_inner q n data (recv_buf_len s)")
    case (Raised e q' len')
    from read_inner_raised [OF this] have "len' = recv_buf_len s" by simp
    with Raised Some assms show ?thesis
      by (intro raised [of q e q']) (simp_all add: read_pass_def)
  next
    case (Stop q' n' data' len')
    obtain r s2 where mr: "maybe_resume (store_queue s dt q' len') = (r, s2)"
      by (cases "maybe_resume (store_queue s dt q' len')")
    from maybe_resume_fields [OF mr] have ef: "eof_received_flag s2 = eof_received_flag s"
      by simp
    show ?thesis
    proof (cases r)
      case (Raise e)
      with Some Stop mr assms show ?thesis
        by (intro resume_failed [of q q' n' data' len' e]) (simp_all add: read_pass_def)
    next
      case (Return u)
      show ?thesis
      proof (cases "n' = 0 \<or> (n' > 0 \<and> data' \<noteq> [] \<and> \<not> exact) \<or> eof_received_flag s")
        case True
        then have t2: "n' = 0 \<or> (n' > 0 \<and> data' \<noteq> [] \<and> \<not> exact) \<or> eof_received_flag s2"
          using ef by simp
        have "c = Done (read_finish n' exact data') \<and> s' = s2"
          using Some Stop mr Return assms t2 by (simp add: read_pass_def)
        with Some Stop mr Return True show ?thesis
          by (intro finish [of q q' n' data' len']) simp_all
      next
        case False
        then have nf: "\<not> (n' = 0 \<or> (n' > 0 \<and> data' \<noteq> [] \<and> \<not> exact) \<or> eof_received_flag s2)"
          using ef by simp
        obtain rb s3 where br: "block_read s2 dt = (rb, s3)" by (cases "block_read s2 dt")
        show ?thesis
        proof (cases rb)
          case (Raise e)
          have "c = Done (Raise e) \<and> s' = s3"
            using Some Stop mr Return nf br Raise assms by (auto simp: read_pass_def)
          with Some Stop mr Return False br Raise show ?thesis
            by (intro block_failed [of q q' n' data' len' s2 e]) simp_all
        next
          case (Return w)
          have "c = Blocked w (n', data') \<and> s' = s3"
            using Some Stop mr \<open>r = Return u\<close> nf br Return assms by (auto simp: read_pass_def)
          with Some Stop mr \<open>r = Return u\<close> False br Return show ?thesis
            by (intro blocked [of q q' n' data' len' s2 w]) simp_all
        qed
      qed
    qed
  qed
qed


text \<open>The shape of a pass of \<^verbatim>\<open>readline\<close>, case by case.\<close>

lemma readline_pass_cases:
  assumes "readline_pass s dt data = (c, s')"
  obtains
    (nokey) "map_of (recv_buf s) dt = None" "c = Done (Raise (KeyError dt))" "s' = s"
  | (raised) q e q' where "map_of (recv_buf s) dt = Some q"
      "readline_inner q data (recv_buf_len s) = LRaised e q' (recv_buf_len s)"
      "c = Done (Raise (ChannelError e))" "s' = store_queue s dt q' (recv_buf_len s)"
  | (deferred) q q' data' len' where "map_of (recv_buf s) dt = Some q"
      "readline_inner q data (recv_buf_len s) = Deferred q' data' len'"
      "c = Done (Return (concat data'))" "s' = store_queue s dt q' len'"
  | (resume_failed) q q' data' len' e where "map_of (recv_buf s) dt = Some q"
      "readline_inner q data (recv_buf_len s) = Line q' data' len' \<or>
       (readline_inner q data (recv_buf_len s) = Exhausted data' len' \<and> q' = [])"
      "maybe_resume (store_queue s dt q' len') = (Raise e, s')" "c = Done (Raise e)"
  | (line) q q' data' len' where "map_of (recv_buf s) dt = Some q"
      "readline_inner q data (recv_buf_len s) = Line q' data' len'"
      "maybe_resume (store_queue s dt q' len') = (Return (), s')"
      "c = Done (Return (concat data'))"
  | (eof) q data' len' where "map_of (recv_buf s) dt = Some q"
      "readline_inner q data (recv_buf_len s) = Exhausted data' len'"
      "maybe_resume (store_queue s dt [] len') = (Return (), s')"
      "eof_received_flag s" "c = Done (Return (concat data'))"
  | (block_failed) q data' len' s2 e where "map_of (recv_buf s) dt = Some q"
      "readline_inner q data (recv_buf_len s) = Exhausted data' len'"
      "maybe_resume (store_queue s dt [] len') = (Return (), s2)"
      "\<not> eof_received_flag s"
      "block_read s2 dt = (Raise e, s')" "c = Done (Raise e)"
  | (blocked) q data' len' s2 w where "map_of (recv_buf s) dt = Some q"
      "readline_inner q data (recv_buf_len s) = Exhausted data' len'"
      "maybe_resume (store_queue s dt [] len') = (Return (), s2)"
      "\<not> eof_received_flag s"
      "block_read s2 dt = (Return w, s')" "c = Blocked w data'"
proof (cases "map_of (recv_buf s) dt")
  case None
  show ?thesis
    by (rule nokey) (use None assms in \<open>simp_all add: readline_pass_def\<close>)
next
  case (Some q)
  show ?thesis
  proof (cases "readline_inner q data (recv_buf_len s)")
    case (LRaised e q' len')
    from readline_inner_payload [OF this] have "len' = recv_buf_len s" by simp
    with LRaised Some assms show ?thesis
      by (intro raised [of q e q']) (simp_all add: readline_pass_def)
  next
    case (Deferred q' data' len')
    with Some assms show ?thesis
      by (intro deferred [of q q' data' len']) (simp_all add: readline_pass_def)
  next
    case (Line q' data' len')
    obtain r s2 where mr: "maybe_resume (store_queue s dt q' len') = (r, s2)"
      by (cases "maybe_resume (store_queue s dt q' len')")
    show ?thesis
    proof (cases r)
      case (Raise e)
      with Some Line mr assms show ?thesis
        by (intro resume_failed [of q q' data' len' e]) (simp_all add: readline_pass_def)
    next
      case (Return u)
      with Some Line mr assms show ?thesis
        by (intro line [of q q' data' len']) (simp_all add: readline_pass_def)
    qed
  next
    case (Exhausted data' len')
    obtain r s2 where mr: "maybe_resume (store_queue s dt [] len') = (r, s2)"
      by (cases "maybe_resume (store_queue s dt [] len')")
    from maybe_resume_fields [OF mr] have ef: "eof_received_flag s2 = eof_received_flag s"
      by simp
    show ?thesis
    proof (cases r)
      case (Raise e)
      with Some Exhausted mr assms show ?thesis
        by (intro resume_failed [of q "[]" data' len' e]) (simp_all add: readline_pass_def)
    next
      case (Return u)
      show ?thesis
      proof (cases "eof_received_flag s")
        case True
        have "c = Done (Return (concat data')) \<and> s' = s2"
          using Some Exhausted mr Return assms True ef by (auto simp: readline_pass_def)
        with Some Exhausted mr Return True show ?thesis
          by (intro eof [of q data' len']) simp_all
      next
        case False
        obtain rb s3 where br: "block_read s2 dt = (rb, s3)" by (cases "block_read s2 dt")
        show ?thesis
        proof (cases rb)
          case (Raise e)
          have "c = Done (Raise e) \<and> s' = s3"
            using Some Exhausted mr Return False ef br Raise assms
            by (auto simp: readline_pass_def)
          with Some Exhausted mr Return False br Raise show ?thesis
            by (intro block_failed [of q data' len' s2 e]) simp_all
        next
          case (Return w)
          have "c = Blocked w data' \<and> s' = s3"
            using Some Exhausted mr \<open>r = Return u\<close> False ef br Return assms
            by (auto simp: readline_pass_def)
          with Some Exhausted mr \<open>r = Return u\<close> False br Return show ?thesis
            by (intro blocked [of q data' len' s2 w]) simp_all
        qed
      qed
    qed
  qed
qed

subsection \<open>Nothing is lost or reordered by a pass\<close>


lemma queue_after_resume:
  "maybe_resume (store_queue s dt q len) = (r, s') \<Longrightarrow> queue s' dt = q"
  using maybe_resume_fields [of "store_queue s dt q len" r s']
  by (simp add: queue_def update_conv')


lemma read_finish_delivered:
  "delivered (read_finish n exact data) = concat data"
  by (simp add: read_finish_def Let_def)



lemma read_pass_flags:
  assumes "read_pass s n dt exact data = (c, s')"
  shows "eof_received_flag s' = eof_received_flag s \<and> limit s' = limit s \<and>
         (chan s' = None) = (chan s = None) \<and>
         connection_lost_flag s' = connection_lost_flag s \<and> exception s' = exception s \<and>
         write_paused s' = write_paused s \<and> drain_waiters s' = drain_waiters s"
  using assms
proof (cases rule: read_pass_cases)
  case (blocked q q' n' data' len' s2 w)
  with maybe_resume_fields [OF blocked(3)] block_read_fields [OF blocked(5)]
  show ?thesis by simp
next
  case (block_failed q q' n' data' len' s2 e)
  with maybe_resume_fields [OF block_failed(3)] block_read_fields [OF block_failed(5)]
  show ?thesis by simp
qed (auto dest: maybe_resume_fields)




subsection \<open>The empty chunk a line leaves behind\<close>



subsection \<open>Draining\<close>

text \<open>
  Claim C6. \<^verbatim>\<open>drain\<close> parks the caller, on a fresh future it appends to the drain
  waiters, exactly when writing is paused and the connection is not lost. When it is
  not parked, and when it is resumed with its future resolved, it ends as follows: on a
  lost connection it raises the error recorded at the loss, or a broken pipe error if
  none was recorded and writing is still paused; in every other case it returns.
\<close>

theorem drain_contract:
  "((\<exists>w s'. drain s = (Blocked w (), s')) \<longleftrightarrow> write_paused s \<and> \<not> connection_lost_flag s) \<and>
   (write_paused s \<and> \<not> connection_lost_flag s \<longrightarrow>
      (\<exists>s'. drain s = (Blocked (next_future s) (), s') \<and>
            futures s' (next_future s) = Pending \<and>
            drain_waiters s' = drain_waiters s @ [next_future s])) \<and>
   (\<not> (write_paused s \<and> \<not> connection_lost_flag s) \<longrightarrow> drain s = (Done (drain_finish s), s)) \<and>
   (futures s w = Resolved \<longrightarrow> drain_resume s w = (Done (drain_finish s), s)) \<and>
   drain_finish s =
     (if connection_lost_flag s then
        (case exception s of
           Some k \<Rightarrow> Raise (ChannelError k)
         | None \<Rightarrow> if write_paused s then Raise BrokenPipeError else Return ())
      else Return ())"
  by (auto simp: drain_def drain_resume_def drain_finish_def new_future_def Let_def
      split: option.splits)

theorem drain_contract_witness:
  "drain (pause_writing (connection_made init_session example_channel)) =
     (Blocked 0 (), snd (drain (pause_writing (connection_made init_session example_channel)))) \<and>
   drain_resume drain_lost_session 0 = (Done (Raise BrokenPipeError), drain_lost_session)"
proof -
  let ?p = "pause_writing (connection_made init_session example_channel)"
  have p: "write_paused ?p \<and> \<not> connection_lost_flag ?p" "next_future ?p = 0" by code_simp+
  have l: "futures drain_lost_session 0 = Resolved" "connection_lost_flag drain_lost_session"
    "exception drain_lost_session = None" "write_paused drain_lost_session"
    by code_simp+
  from drain_contract [of ?p 0] p have "drain ?p = (Blocked 0 (), snd (drain ?p))"
    by auto
  moreover from drain_contract [of drain_lost_session 0] l
  have "drain_resume drain_lost_session 0 = (Done (Raise BrokenPipeError), drain_lost_session)"
    by simp
  ultimately show ?thesis by simp
qed

subsection \<open>What the callbacks leave unchanged\<close>

lemma wake_fields:
  "wake s w = (r, s') \<Longrightarrow>
   recv_buf s' = recv_buf s \<and> recv_buf_len s' = recv_buf_len s \<and>
   eof_received_flag s' = eof_received_flag s \<and> read_waiter s' = read_waiter s \<and>
   next_future s' = next_future s \<and> limit s' = limit s \<and> chan s' = chan s \<and>
   connection_lost_flag s' = connection_lost_flag s \<and> exception s' = exception s \<and>
   write_paused s' = write_paused s \<and> drain_waiters s' = drain_waiters s"
  by (auto simp: wake_def split: fstate.splits)

lemma unblock_read_fields:
  "unblock_read s dt = (r, s') \<Longrightarrow>
   recv_buf s' = recv_buf s \<and> recv_buf_len s' = recv_buf_len s \<and>
   eof_received_flag s' = eof_received_flag s \<and>
   next_future s' = next_future s \<and> limit s' = limit s \<and> chan s' = chan s \<and>
   connection_lost_flag s' = connection_lost_flag s \<and> exception s' = exception s \<and>
   write_paused s' = write_paused s \<and> drain_waiters s' = drain_waiters s"
  by (auto simp: unblock_read_def split: option.splits prod.splits result.splits
      dest: wake_fields)

lemma unblock_each_fields:
  "unblock_each s ks = (r, s') \<Longrightarrow>
   recv_buf s' = recv_buf s \<and> recv_buf_len s' = recv_buf_len s \<and>
   eof_received_flag s' = eof_received_flag s \<and>
   next_future s' = next_future s \<and> limit s' = limit s \<and> chan s' = chan s \<and>
   connection_lost_flag s' = connection_lost_flag s \<and> exception s' = exception s \<and>
   write_paused s' = write_paused s \<and> drain_waiters s' = drain_waiters s"
proof (induction ks arbitrary: s)
  case Nil
  then show ?case by simp
next
  case (Cons k ks)
  obtain r1 s1 where u: "unblock_read s k = (r1, s1)" by (cases "unblock_read s k")
  show ?case
  proof (cases r1)
    case (Raise e)
    with u Cons.prems unblock_read_fields [OF u] show ?thesis by simp
  next
    case (Return x)
    with u Cons.prems have "unblock_each s1 ks = (r, s')" by simp
    from Cons.IH [OF this] unblock_read_fields [OF u] show ?thesis by simp
  qed
qed

lemma wake_each_fields:
  "wake_each s ws = (r, s') \<Longrightarrow>
   recv_buf s' = recv_buf s \<and> recv_buf_len s' = recv_buf_len s \<and>
   eof_received_flag s' = eof_received_flag s \<and> read_waiter s' = read_waiter s \<and>
   next_future s' = next_future s \<and> limit s' = limit s \<and> chan s' = chan s \<and>
   connection_lost_flag s' = connection_lost_flag s \<and> exception s' = exception s \<and>
   write_paused s' = write_paused s \<and> drain_waiters s' = drain_waiters s"
proof (induction ws arbitrary: s)
  case Nil
  then show ?case by simp
next
  case (Cons w ws)
  obtain r1 s1 where u: "wake s w = (r1, s1)" by (cases "wake s w")
  show ?case
  proof (cases r1)
    case (Raise e)
    with u Cons.prems wake_fields [OF u] show ?thesis by simp
  next
    case (Return x)
    with u Cons.prems have "wake_each s1 ws = (r, s')" by simp
    from Cons.IH [OF this] wake_fields [OF u] show ?thesis by simp
  qed
qed

lemma unblock_drain_fields:
  "unblock_drain s = (r, s') \<Longrightarrow>
   recv_buf s' = recv_buf s \<and> recv_buf_len s' = recv_buf_len s \<and>
   eof_received_flag s' = eof_received_flag s \<and> read_waiter s' = read_waiter s \<and>
   next_future s' = next_future s \<and> limit s' = limit s \<and> chan s' = chan s \<and>
   connection_lost_flag s' = connection_lost_flag s \<and> exception s' = exception s \<and>
   write_paused s' = write_paused s"
  by (auto simp: unblock_drain_def split: prod.splits result.splits dest: wake_each_fields)

lemma eof_received_fields:
  "eof_received s = (r, s') \<Longrightarrow>
   recv_buf s' = recv_buf s \<and> recv_buf_len s' = recv_buf_len s \<and>
   eof_received_flag s' \<and>
   next_future s' = next_future s \<and> limit s' = limit s \<and> chan s' = chan s \<and>
   connection_lost_flag s' = connection_lost_flag s \<and> exception s' = exception s \<and>
   write_paused s' = write_paused s \<and> drain_waiters s' = drain_waiters s"
  by (auto simp: eof_received_def Let_def split: prod.splits result.splits
      dest!: unblock_each_fields)


subsection \<open>The counter of buffered units\<close>

lemma chunk_total_append [simp]: "chunk_total (q @ r) = chunk_total q + chunk_total r"
  by (induction q rule: chunk_total.induct) simp_all

lemma sum_update_absent:
  "k \<notin> fst ` set al \<Longrightarrow>
   sum_list (map (\<lambda>kq. chunk_total (snd kq)) (AList.update k q al)) =
   sum_list (map (\<lambda>kq. chunk_total (snd kq)) al) + chunk_total q"
  by (induction al) auto

lemma sum_update_present:
  "distinct (map fst al) \<Longrightarrow> map_of al k = Some q0 \<Longrightarrow>
   sum_list (map (\<lambda>kq. chunk_total (snd kq)) (AList.update k q al)) =
   sum_list (map (\<lambda>kq. chunk_total (snd kq)) al) - chunk_total q0 + chunk_total q"
proof (induction al)
  case Nil
  then show ?case by simp
next
  case (Cons a al)
  obtain k' q' where a: "a = (k', q')" by (cases a)
  show ?case
  proof (cases "k' = k")
    case True
    with a Cons.prems show ?thesis by simp
  next
    case False
    with a Cons.prems Cons.IH show ?thesis by simp
  qed
qed

lemma accounted_store_queue:
  assumes "accounted s" and "map_of (recv_buf s) dt = Some q"
    and "len - chunk_total q' = recv_buf_len s - chunk_total q"
  shows "accounted (store_queue s dt q' len)"
  using assms sum_update_present [of "recv_buf s" dt q q']
  by (simp add: accounted_def buffered_def distinct_update)

lemma accounted_cong:
  "accounted s \<Longrightarrow> recv_buf s' = recv_buf s \<Longrightarrow> recv_buf_len s' = recv_buf_len s \<Longrightarrow>
   accounted s'"
  by (simp add: accounted_def buffered_def)

lemma read_inner_stop_total:
  "read_inner q n data len = Stop q' n' data' len' \<Longrightarrow>
   len' - chunk_total q' = len - chunk_total q"
proof (induction q n data len rule: read_inner.induct)
  case (1 n data len)
  then show ?case by simp
next
  case (2 e q n data len)
  then show ?case by (auto split: if_splits)
next
  case (3 d q n data len)
  show ?case
  proof (cases "n = 0")
    case True
    with "3.prems" show ?thesis by simp
  next
    case nz: False
    show ?thesis
    proof (cases "n > 0 \<and> int (length d) > n")
      case True
      with nz "3.prems" show ?thesis by (auto simp: Let_def)
    next
      case False
      with nz "3.prems" have "read_inner q (n - int (length d)) (data @ [d]) (len - int (length d)) =
          Stop q' n' data' len'" by (auto simp: Let_def)
      from "3.IH" [OF nz refl False this] show ?thesis by simp
    qed
  qed
qed

lemma readline_inner_total:
  "readline_inner q data len = r \<Longrightarrow>
   (case r of
      Exhausted data' len' \<Rightarrow> len' = len - chunk_total q
    | Deferred q' data' len' \<Rightarrow> len' - chunk_total q' = len - chunk_total q
    | Line q' data' len' \<Rightarrow> len' - chunk_total q' = len - chunk_total q
    | LRaised e q' len' \<Rightarrow> chunk_total q' = chunk_total q)"
proof (induction q data len arbitrary: r rule: readline_inner.induct)
  case (1 data len)
  then show ?case by auto
next
  case (2 e q data len)
  then show ?case by auto
next
  case (3 d q data len)
  show ?case
  proof (cases "find_unit d sep + 1 > 0")
    case True
    have "find_unit d sep < int (length d)" using find_unit_bounds by blast
    with True "3.prems" show ?thesis by (auto simp: Let_def)
  next
    case False
    with "3.prems" have rec: "readline_inner q (data @ [d]) (len - int (length d)) = r"
      by (auto simp: Let_def)
    from readline_inner_payload [OF rec] have "\<And>e q' len'. r \<noteq> LRaised e q' len'"
      by auto
    with "3.IH" [OF refl False rec] show ?thesis
      by (cases r) auto
  qed
qed

lemma read_pass_accounted:
  assumes "read_pass s n dt exact data = (c, s')" and "accounted s"
  shows "accounted s'"
  using assms(1)
proof (cases rule: read_pass_cases)
  case nokey
  with assms(2) show ?thesis by simp
next
  case (raised q e q')
  from read_inner_raised [OF raised(2)] have "chunk_total q' = chunk_total q" by auto
  with raised assms(2) show ?thesis by (simp add: accounted_store_queue)
next
  case (resume_failed q q' n' data' len' e)
  have "accounted (store_queue s dt q' len')"
    using assms(2) resume_failed(1) read_inner_stop_total [OF resume_failed(2)]
    by (rule accounted_store_queue)
  with maybe_resume_fields [OF resume_failed(3)] show ?thesis by (simp add: accounted_cong)
next
  case (finish q q' n' data' len')
  have "accounted (store_queue s dt q' len')"
    using assms(2) finish(1) read_inner_stop_total [OF finish(2)]
    by (rule accounted_store_queue)
  with maybe_resume_fields [OF finish(3)] show ?thesis by (simp add: accounted_cong)
next
  case (block_failed q q' n' data' len' s2 e)
  have "accounted (store_queue s dt q' len')"
    using assms(2) block_failed(1) read_inner_stop_total [OF block_failed(2)]
    by (rule accounted_store_queue)
  with maybe_resume_fields [OF block_failed(3)] have "accounted s2" by (simp add: accounted_cong)
  with block_read_fields [OF block_failed(5)] show ?thesis by (simp add: accounted_cong)
next
  case (blocked q q' n' data' len' s2 w)
  have "accounted (store_queue s dt q' len')"
    using assms(2) blocked(1) read_inner_stop_total [OF blocked(2)]
    by (rule accounted_store_queue)
  with maybe_resume_fields [OF blocked(3)] have "accounted s2" by (simp add: accounted_cong)
  with block_read_fields [OF blocked(5)] show ?thesis by (simp add: accounted_cong)
qed

lemma readline_pass_accounted:
  assumes "readline_pass s dt data = (c, s')" and "accounted s"
  shows "accounted s'"
  using assms(1)
proof (cases rule: readline_pass_cases)
  case nokey
  with assms(2) show ?thesis by simp
next
  case (raised q e q')
  from readline_inner_total [OF raised(2)] have "chunk_total q' = chunk_total q" by auto
  with raised assms(2) show ?thesis by (simp add: accounted_store_queue)
next
  case (deferred q q' data' len')
  from readline_inner_total [OF deferred(2)] deferred assms(2) show ?thesis
    by (simp add: accounted_store_queue)
next
  case (resume_failed q q' data' len' e)
  from resume_failed(2) have "len' - chunk_total q' = recv_buf_len s - chunk_total q"
    using readline_inner_total [of q data "recv_buf_len s"] by auto
  with assms(2) resume_failed(1) have "accounted (store_queue s dt q' len')"
    by (rule accounted_store_queue)
  with maybe_resume_fields [OF resume_failed(3)] show ?thesis by (simp add: accounted_cong)
next
  case (line q q' data' len')
  from readline_inner_total [OF line(2)] assms(2) line(1)
  have "accounted (store_queue s dt q' len')" by (simp add: accounted_store_queue)
  with maybe_resume_fields [OF line(3)] show ?thesis by (simp add: accounted_cong)
next
  case (eof q data' len')
  from readline_inner_total [OF eof(2)] assms(2) eof(1)
  have "accounted (store_queue s dt [] len')" by (simp add: accounted_store_queue)
  with maybe_resume_fields [OF eof(3)] show ?thesis by (simp add: accounted_cong)
next
  case (block_failed q data' len' s2 e)
  from readline_inner_total [OF block_failed(2)] assms(2) block_failed(1)
  have "accounted (store_queue s dt [] len')" by (simp add: accounted_store_queue)
  with maybe_resume_fields [OF block_failed(3)] have "accounted s2" by (simp add: accounted_cong)
  with block_read_fields [OF block_failed(5)] show ?thesis by (simp add: accounted_cong)
next
  case (blocked q data' len' s2 w)
  from readline_inner_total [OF blocked(2)] assms(2) blocked(1)
  have "accounted (store_queue s dt [] len')" by (simp add: accounted_store_queue)
  with maybe_resume_fields [OF blocked(3)] have "accounted s2" by (simp add: accounted_cong)
  with block_read_fields [OF blocked(5)] show ?thesis by (simp add: accounted_cong)
qed


lemma data_received_accounted:
  assumes "data_received s d dt = (r, s')" and "accounted s"
  shows "accounted s'"
proof (cases "map_of (recv_buf s) dt")
  case None
  with assms show ?thesis by (simp add: data_received_def)
next
  case (Some q)
  let ?s1 = "store_queue s dt (q @ [Data d]) (recv_buf_len s + int (length d))"
  have a1: "accounted ?s1"
    using assms(2) Some by (rule accounted_store_queue) simp
  obtain r2 s2 where u: "unblock_read ?s1 dt = (r2, s2)" by (cases "unblock_read ?s1 dt")
  from unblock_read_fields [OF u] a1 have a2: "accounted s2" by (simp add: accounted_cong)
  have dr: "data_received s d dt =
      (case (r2, s2) of
         (Raise e, s2) \<Rightarrow> (Raise e, s2)
       | (Return _, s2) \<Rightarrow>
           (case limit s2 of
              None \<Rightarrow> (Raise TypeError, s2)
            | Some l \<Rightarrow>
                (if recv_buf_len s2 \<ge> l then chan_call s2 PauseReading else (Return (), s2))))"
    using Some u by (simp add: data_received_def store_queue_def Let_def)
  show ?thesis
  proof (cases r2)
    case (Raise e)
    with dr assms(1) a2 show ?thesis by simp
  next
    case (Return x)
    show ?thesis
    proof (cases "limit s2")
      case None
      with Return dr assms(1) a2 show ?thesis by simp
    next
      case (Some l)
      show ?thesis
      proof (cases "recv_buf_len s2 \<ge> l")
        case True
        with Some Return dr assms(1) have "chan_call s2 PauseReading = (r, s')" by simp
        from chan_call_fields [OF this] a2 show ?thesis by (simp add: accounted_cong)
      next
        case False
        with Some Return dr assms(1) a2 show ?thesis by simp
      qed
    qed
  qed
qed

lemma append_exc_accounted:
  "append_exc s e ks = (r, s') \<Longrightarrow> accounted s \<Longrightarrow> accounted s'"
proof (induction s e ks rule: append_exc.induct)
  case (1 s e)
  then show ?case by simp
next
  case (2 s e k ks)
  show ?case
  proof (cases "map_of (recv_buf s) k")
    case None
    with "2.prems" show ?thesis by simp
  next
    case (Some q)
    let ?s1 = "s\<lparr>recv_buf := AList.update k (q @ [Exc e]) (recv_buf s)\<rparr>"
    have "accounted (store_queue s k (q @ [Exc e]) (recv_buf_len s))"
      using "2.prems"(2) Some by (rule accounted_store_queue) simp
    then have "accounted ?s1" by (simp add: accounted_def buffered_def)
    moreover from Some "2.prems"(1) have "append_exc ?s1 e ks = (r, s')" by simp
    ultimately show ?thesis using "2.IH" [OF Some] by simp
  qed
qed

lemma append_exc_fields:
  "append_exc s e ks = (r, s') \<Longrightarrow>
   recv_buf_len s' = recv_buf_len s \<and> eof_received_flag s' = eof_received_flag s \<and>
   read_waiter s' = read_waiter s \<and> futures s' = futures s \<and>
   next_future s' = next_future s \<and> limit s' = limit s \<and> chan s' = chan s \<and>
   connection_lost_flag s' = connection_lost_flag s \<and> exception s' = exception s \<and>
   write_paused s' = write_paused s \<and> drain_waiters s' = drain_waiters s"
proof (induction s e ks rule: append_exc.induct)
  case (1 s e)
  then show ?case by simp
next
  case (2 s e k ks)
  show ?case
  proof (cases "map_of (recv_buf s) k")
    case None
    with "2.prems" show ?thesis by simp
  next
    case (Some q)
    with "2.prems" "2.IH" [OF Some] show ?thesis by simp
  qed
qed

lemma eof_received_accounted:
  "eof_received s = (r, s') \<Longrightarrow> accounted s \<Longrightarrow> accounted s'"
  using eof_received_fields [of s r s'] by (simp add: accounted_cong)

lemma unblock_drain_accounted:
  "unblock_drain s = (r, s') \<Longrightarrow> accounted s \<Longrightarrow> accounted s'"
  using unblock_drain_fields [of s r s'] by (simp add: accounted_cong)

lemma connection_lost_accounted:
  assumes "connection_lost s ex = (r, s')" and "accounted s"
  shows "accounted s'"
proof -
  let ?s1 = "s\<lparr>connection_lost_flag := True, exception := ex\<rparr>"
  have a1: "accounted ?s1" using assms(2) by (simp add: accounted_def buffered_def)
  let ?r2 = "(if \<not> eof_received_flag ?s1 then
                  (case (case ex of
                           None \<Rightarrow> (Return (), ?s1)
                         | Some e \<Rightarrow> append_exc ?s1 e (map fst (read_waiter ?s1))) of
                     (Raise e, s') \<Rightarrow> (Raise e, s')
                   | (Return _, s') \<Rightarrow>
                       (case eof_received s' of
                          (Raise e, s'') \<Rightarrow> (Raise e, s'')
                        | (Return _, s'') \<Rightarrow> (Return (), s'')))
                else (Return (), ?s1))"
  obtain ra sa where ap: "(case ex of None \<Rightarrow> (Return (), ?s1)
      | Some e \<Rightarrow> append_exc ?s1 e (map fst (read_waiter ?s1))) = (ra, sa)"
    by (cases "case ex of None \<Rightarrow> (Return (), ?s1)
      | Some e \<Rightarrow> append_exc ?s1 e (map fst (read_waiter ?s1))")
  have aa: "accounted sa"
    using ap a1 by (cases ex) (auto dest: append_exc_accounted)
  obtain r2 s2 where r2: "?r2 = (r2, s2)" by (cases ?r2)
  have a2: "accounted s2"
  proof (cases "eof_received_flag s")
    case True
    with r2 a1 show ?thesis by auto
  next
    case False
    show ?thesis
    proof (cases ra)
      case (Raise e)
      with False r2 ap aa show ?thesis by auto
    next
      case (Return x)
      obtain rb sb where eo: "eof_received sa = (rb, sb)" by (cases "eof_received sa")
      from eof_received_accounted [OF eo aa] have "accounted sb" .
      with False Return r2 ap eo show ?thesis by (cases rb) auto
    qed
  qed
  have cl: "connection_lost s ex =
      (case (r2, s2) of
         (Raise e, s3) \<Rightarrow> (Raise e, s3)
       | (Return _, s3) \<Rightarrow> (if write_paused s3 then unblock_drain s3 else (Return (), s3)))"
    unfolding connection_lost_def Let_def r2 ..
  show ?thesis
  proof (cases r2)
    case (Raise e)
    with cl assms(1) a2 show ?thesis by simp
  next
    case (Return x)
    show ?thesis
    proof (cases "write_paused s2")
      case True
      with Return cl assms(1) have "unblock_drain s2 = (r, s')" by simp
      from unblock_drain_accounted [OF this a2] show ?thesis .
    next
      case False
      with Return cl assms(1) a2 show ?thesis by simp
    qed
  qed
qed

lemma update_empty_queues:
  "\<forall>kq \<in> set al. snd kq = [] \<Longrightarrow> \<forall>kq \<in> set (AList.update k [] al). snd kq = ([] :: item list)"
  by (induction al) auto

lemma declare_datatypes_empty:
  "distinct (map fst (recv_buf s)) \<and> (\<forall>kq \<in> set (recv_buf s). snd kq = []) \<and>
   recv_buf_len s = 0 \<Longrightarrow>
   distinct (map fst (recv_buf (declare_datatypes s ds))) \<and>
   (\<forall>kq \<in> set (recv_buf (declare_datatypes s ds)). snd kq = []) \<and>
   recv_buf_len (declare_datatypes s ds) = 0"
proof (induction s ds rule: declare_datatypes.induct)
  case (1 s)
  then show ?case by simp
next
  case (2 s k ds)
  from "2.prems" have "\<forall>kq \<in> set (AList.update k [] (recv_buf s)). snd kq = []"
    by (intro update_empty_queues) simp
  with "2.prems" show ?case
    unfolding declare_datatypes.simps
    by (intro "2.IH") (simp add: distinct_update)
qed

lemma empty_queues_total:
  "\<forall>kq \<in> set al. snd kq = [] \<Longrightarrow> sum_list (map (\<lambda>kq. chunk_total (snd kq)) al) = 0"
  by (induction al) auto

lemma connection_made_accounted: "accounted (connection_made init_session ch)"
proof -
  let ?s = "init_session\<lparr>chan := Some ch, limit := Some (recv_window ch)\<rparr>"
  have "distinct (map fst (recv_buf ?s)) \<and> (\<forall>kq \<in> set (recv_buf ?s). snd kq = []) \<and>
    recv_buf_len ?s = 0"
    by (simp add: init_session_def)
  from declare_datatypes_empty [OF this, of "read_datatypes ch"] show ?thesis
    by (simp add: accounted_def buffered_def connection_made_def empty_queues_total)
qed

lemma resume_writing_accounted:
  "resume_writing s = (r, s') \<Longrightarrow> accounted s \<Longrightarrow> accounted s'"
  unfolding resume_writing_def
  by (erule unblock_drain_accounted) (simp add: accounted_def buffered_def)

lemma drain_accounted: "drain s = (c, s') \<Longrightarrow> accounted s \<Longrightarrow> accounted s'"
  by (auto simp: drain_def new_future_def accounted_def buffered_def split: if_splits)

lemma cancel_accounted: "accounted s \<Longrightarrow> accounted (cancel s w)"
  by (auto simp: cancel_def accounted_def buffered_def split: fstate.splits)

lemma reachable_accounted: "reachable s \<Longrightarrow> accounted s"
proof (induction rule: reachable.induct)
  case (connected ch)
  show ?case by (rule connection_made_accounted)
next
  case (received s d dt r s')
  then show ?case by (blast intro: data_received_accounted)
next
  case (eof s rb s')
  then show ?case by (blast intro: eof_received_accounted)
next
  case (lost s ex r s')
  then show ?case by (blast intro: connection_lost_accounted)
next
  case (read_step s n dt exact data c s')
  then show ?case by (blast intro: read_pass_accounted)
next
  case (readline_step s dt data cl s')
  then show ?case by (blast intro: readline_pass_accounted)
next
  case (paused s)
  then show ?case by (simp add: pause_writing_def accounted_def buffered_def)
next
  case (resumed s r s')
  then show ?case by (blast intro: resume_writing_accounted)
next
  case (drained s cd s')
  then show ?case by (blast intro: drain_accounted)
next
  case (cancelled s w)
  then show ?case by (simp add: cancel_accounted)
qed

lemma read_call:
  "map_of (recv_buf s) dt = Some q \<Longrightarrow> chan s = Some ch \<Longrightarrow>
   read s n dt exact = read_pass s n dt exact []"
  by (simp add: read_def)

text \<open>
  Claim C8. In every state the session reaches after \<^verbatim>\<open>connection_made\<close>, by
  callbacks, passes of \<^verbatim>\<open>read\<close> and \<^verbatim>\<open>readline\<close>, \<^verbatim>\<open>drain\<close> and cancellations in
  any order, the counter \<^verbatim>\<open>_recv_buf_len\<close> is the sum, over all datatypes, of the
  lengths of the queued data chunks; the queued errors count for nothing.
\<close>

theorem recv_buf_len_is_buffered:
  "reachable s \<Longrightarrow> recv_buf_len s = buffered s"
  using reachable_accounted [of s] by (simp add: accounted_def)

theorem recv_buf_len_is_buffered_witness:
  "recv_buf_len watermark_session = buffered watermark_session \<and>
   buffered watermark_session = 3"
proof -
  let ?s0 = "connection_made init_session example_channel"
  let ?s1 = "snd (data_received ?s0 [1, 2, 3, 4, 5, 6, 7, 8] None)"
  have r1: "reachable ?s1"
    by (rule reachable.received [OF reachable.connected [of example_channel], of _ _ "fst (data_received ?s0 [1, 2, 3, 4, 5, 6, 7, 8] None)"]) simp
  have r2: "reachable filled_session"
    unfolding filled_session_def
    by (rule reachable.received [OF r1, of _ _ "fst (data_received ?s1 [9, 10, 11, 12] None)"]) simp
  have "map_of (recv_buf filled_session) None =
      Some [Data [1, 2, 3, 4, 5, 6, 7, 8], Data [9, 10, 11, 12]]"
    by code_simp
  moreover have "chan filled_session = Some (example_channel\<lparr>calls := [PauseReading]\<rparr>)"
    by code_simp
  ultimately have "read filled_session 9 None False = read_pass filled_session 9 None False []"
    by (rule read_call)
  then have "read_pass filled_session 9 None False [] =
      (fst (read filled_session 9 None False), watermark_session)"
    by (simp add: watermark_session_def)
  from reachable.read_step [OF r2 this] have "reachable watermark_session" .
  from recv_buf_len_is_buffered [OF this]
  have "recv_buf_len watermark_session = buffered watermark_session" .
  moreover have "buffered watermark_session = 3" by code_simp
  ultimately show ?thesis by simp
qed

subsection \<open>Exact reads\<close>







lemma payload_of_append [simp]: "payload_of (q @ r) = payload_of q @ payload_of r"
  by (induction q rule: payload_of.induct) simp_all

lemma payload_of_Data [simp]: "payload_of (map Data ds) = concat ds"
  by (induction ds) simp_all






subsection \<open>A queued error\<close>

lemma resume_at_eof:
  assumes "chan s = Some ch" and "limit s = Some l"
  shows "\<exists>s2. maybe_resume (store_queue s dt q len) = (Return (), s2) \<and> queue s2 dt = q \<and>
           eof_received_flag s2 = eof_received_flag s \<and> chan s2 \<noteq> None \<and> limit s2 = Some l"
proof -
  have "chan (store_queue s dt q len) = Some ch" "limit (store_queue s dt q len) = Some l"
    using assms by simp_all
  from maybe_resume_connected [OF this] obtain s2 where
    m: "maybe_resume (store_queue s dt q len) = (Return (), s2)" by blast
  from maybe_resume_fields [OF m] queue_after_resume [OF m] m assms show ?thesis by auto
qed


lemma readline_pass_error_raised:
  assumes "map_of (recv_buf s) dt = Some (Exc e # q)"
  shows "\<exists>s'. readline_pass s dt [] = (Done (Raise (ChannelError e)), s') \<and> queue s' dt = q"
  using assms by (simp add: readline_pass_def)

lemma read_pass_error_raised:
  assumes "map_of (recv_buf s) dt = Some (Exc e # q)" and "n \<noteq> 0"
  shows "\<exists>s'. read_pass s n dt exact [] = (Done (Raise (ChannelError e)), s') \<and> queue s' dt = q"
  using assms by (simp add: read_pass_def)








subsection \<open>The watermark\<close>

lemma chan_calls_cong: "chan s' = chan s \<Longrightarrow> chan_calls s' = chan_calls s"
  by (simp add: chan_calls_def)

lemma data_received_pause:
  assumes "data_received s d dt = (Return (), s')" and "limit s = Some l"
  shows "recv_buf_len s' = recv_buf_len s + int (length d) \<and>
         chan_calls s' = chan_calls s @ (if recv_buf_len s' \<ge> l then [PauseReading] else [])"
proof (cases "map_of (recv_buf s) dt")
  case None
  with assms show ?thesis by (simp add: data_received_def)
next
  case (Some q)
  let ?s1 = "store_queue s dt (q @ [Data d]) (recv_buf_len s + int (length d))"
  obtain r2 s2 where u: "unblock_read ?s1 dt = (r2, s2)" by (cases "unblock_read ?s1 dt")
  from unblock_read_fields [OF u] assms(2)
  have f: "recv_buf_len s2 = recv_buf_len s + int (length d)" "limit s2 = Some l"
    "chan s2 = chan s" by simp_all
  have dr: "data_received s d dt =
      (case (r2, s2) of
         (Raise e, s2) \<Rightarrow> (Raise e, s2)
       | (Return _, s2) \<Rightarrow>
           (if recv_buf_len s2 \<ge> l then chan_call s2 PauseReading else (Return (), s2)))"
    using Some u f by (cases r2) (simp_all add: data_received_def store_queue_def Let_def)
  show ?thesis
  proof (cases r2)
    case (Raise e)
    with dr assms(1) show ?thesis by simp
  next
    case (Return x)
    show ?thesis
    proof (cases "recv_buf_len s2 \<ge> l")
      case True
      with Return dr assms(1) have c: "chan_call s2 PauseReading = (Return (), s')" by simp
      from chan_call_fields [OF c] f True have "recv_buf_len s' = recv_buf_len s + int (length d)"
        "recv_buf_len s' \<ge> l" by simp_all
      moreover from c f(3) have "chan_calls s' = chan_calls s @ [PauseReading]"
        by (auto simp: chan_call_def chan_calls_def split: option.splits)
      ultimately show ?thesis by simp
    next
      case False
      with Return dr assms(1) f show ?thesis by (simp add: chan_calls_def)
    qed
  qed
qed

lemma maybe_resume_watermark:
  assumes "maybe_resume s = (r, s')" and "limit s = Some l" and "chan s = Some ch"
  shows "r = Return () \<and> recv_buf_len s' = recv_buf_len s \<and>
         chan_calls s' = chan_calls s @ (if recv_buf_len s' < l then [ResumeReading] else [])"
  using maybe_resume_connected [OF assms(3,2)] assms(1) by auto

lemma read_pass_watermark:
  assumes "read_pass s n dt exact data = (c, s')"
    and "limit s = Some l" and "chan s = Some ch" and "map_of (recv_buf s) dt = Some q"
  shows "(\<forall>e. c = Done (Raise (ChannelError e)) \<longrightarrow> chan_calls s' = chan_calls s) \<and>
         ((\<forall>e. c \<noteq> Done (Raise (ChannelError e))) \<longrightarrow>
            chan_calls s' = chan_calls s @ (if recv_buf_len s' < l then [ResumeReading] else []))"
  using assms(1)
proof (cases rule: read_pass_cases)
  case nokey
  with assms(4) show ?thesis by simp
next
  case (raised q0 e q')
  then show ?thesis by (simp add: chan_calls_def)
next
  case (resume_failed q0 q' n' data' len' e)
  from maybe_resume_watermark [where l = l and ch = ch, OF resume_failed(3)] assms(2,3) show ?thesis by simp
next
  case (finish q0 q' n' data' len')
  from maybe_resume_watermark [where l = l and ch = ch, OF finish(3)] assms(2,3) finish(5)
  show ?thesis by (simp add: chan_calls_def read_finish_def Let_def)
next
  case (block_failed q0 q' n' data' len' s2 e)
  have "e = RuntimeError \<or> e = KeyError dt"
    using block_failed(5) by (auto simp: block_read_def new_future_def split: option.splits)
  moreover from maybe_resume_watermark [where l = l and ch = ch, OF block_failed(3)] assms(2,3)
    block_read_fields [OF block_failed(5)]
  have "chan_calls s' = chan_calls s @ (if recv_buf_len s' < l then [ResumeReading] else [])"
    by (simp add: chan_calls_def)
  ultimately show ?thesis using block_failed(6) by auto
next
  case (blocked q0 q' n' data' len' s2 w)
  from maybe_resume_watermark [where l = l and ch = ch, OF blocked(3)] assms(2,3) block_read_fields [OF blocked(5)]
  have "chan_calls s' = chan_calls s @ (if recv_buf_len s' < l then [ResumeReading] else [])"
    by (simp add: chan_calls_def)
  with blocked(6) show ?thesis by simp
qed

lemma readline_pass_watermark:
  assumes "readline_pass s dt data = (c, s')"
    and "limit s = Some l" and "chan s = Some ch" and "map_of (recv_buf s) dt = Some q"
  shows "case readline_inner q data (recv_buf_len s) of
           Line q' data' len' \<Rightarrow>
             chan_calls s' = chan_calls s @ (if recv_buf_len s' < l then [ResumeReading] else [])
         | Exhausted data' len' \<Rightarrow>
             chan_calls s' = chan_calls s @ (if recv_buf_len s' < l then [ResumeReading] else [])
         | Deferred q' data' len' \<Rightarrow> chan_calls s' = chan_calls s
         | LRaised e q' len' \<Rightarrow> chan_calls s' = chan_calls s"
  using assms(1)
proof (cases rule: readline_pass_cases)
  case nokey
  with assms(4) show ?thesis by simp
next
  case (raised q0 e q')
  with assms(4) show ?thesis by (simp add: chan_calls_def)
next
  case (deferred q0 q' data' len')
  with assms(4) show ?thesis by (simp add: chan_calls_def)
next
  case (resume_failed q0 q' data' len' e)
  from maybe_resume_watermark [where l = l and ch = ch, OF resume_failed(3)] assms(2,3) show ?thesis by simp
next
  case (line q0 q' data' len')
  from maybe_resume_watermark [where l = l and ch = ch, OF line(3)] assms(2,3,4) line(1,2)
  show ?thesis by (simp add: chan_calls_def)
next
  case (eof q0 data' len')
  from maybe_resume_watermark [where l = l and ch = ch, OF eof(3)] assms(2,3,4) eof(1,2)
  show ?thesis by (simp add: chan_calls_def)
next
  case (block_failed q0 data' len' s2 e)
  from maybe_resume_watermark [where l = l and ch = ch, OF block_failed(3)] assms(2,3,4) block_failed(1,2)
    block_read_fields [OF block_failed(5)]
  show ?thesis by (simp add: chan_calls_def)
next
  case (blocked q0 data' len' s2 w)
  from maybe_resume_watermark [where l = l and ch = ch, OF blocked(3)] assms(2,3,4) blocked(1,2)
    block_read_fields [OF blocked(5)]
  show ?thesis by (simp add: chan_calls_def)
qed

text \<open>
  The scenario of the specification: with the window at 10 units, a chunk of 8 units
  requests nothing, a chunk of 4 more requests a pause, and reading 9 units requests
  the channel to resume.
\<close>

lemma watermark_scenario:
  "chan_calls (snd (data_received (connection_made init_session example_channel)
      [1, 2, 3, 4, 5, 6, 7, 8] None)) = [] \<and>
   chan_calls filled_session = [PauseReading] \<and>
   recv_buf_len filled_session = 12 \<and>
   chan_calls watermark_session = [PauseReading, ResumeReading] \<and>
   recv_buf_len watermark_session = 3"
  by code_simp

text \<open>
  Claim C5: \<^verbatim>\<open>pause_reading\<close> is requested exactly when the counter has reached the
  limit after \<^verbatim>\<open>data_received\<close> appended, and \<^verbatim>\<open>resume_reading\<close> exactly when the
  counter is below the limit after a draining pass of \<^verbatim>\<open>read\<close> or \<^verbatim>\<open>readline\<close>.
  The lemmas above give the two halves for \<^verbatim>\<open>data_received\<close>, for \<^verbatim>\<open>read\<close>, and for
  the passes of \<^verbatim>\<open>readline\<close> that end at a separator or on an empty queue. The pass of
  \<^verbatim>\<open>readline\<close> that ends in front of a queued error returns without the check that
  \<^verbatim>\<open>read\<close> makes in the same state: after a chunk of 12 units paused the channel and
  the connection was lost with an error, \<^verbatim>\<open>readline\<close> drains the 12 units, the counter
  falls to 0, below the limit 10, and no resume is requested, while \<^verbatim>\<open>read\<close> on the
  same state returns the same data and requests it.
\<close>

theorem readline_skips_resume:
  "chan_calls paused_lost_session = [PauseReading] \<and>
   limit paused_lost_session = Some 10 \<and>
   fst (readline paused_lost_session None) =
     Done (Return [1, 2, 3, 4, 5, 6, 7, 8, 9, 1, 2, 3]) \<and>
   recv_buf_len (snd (readline paused_lost_session None)) = 0 \<and>
   chan_calls (snd (readline paused_lost_session None)) = [PauseReading] \<and>
   fst (read paused_lost_session (- 1) None False) =
     Done (Return [1, 2, 3, 4, 5, 6, 7, 8, 9, 1, 2, 3]) \<and>
   chan_calls (snd (read paused_lost_session (- 1) None False)) =
     [PauseReading, ResumeReading]"
  by code_simp

subsection \<open>Slots stay in order\<close>

lemma waiting_update:
  "waiting (s\<lparr>read_waiter := AList.update k v (read_waiter s)\<rparr>) k' w \<longleftrightarrow>
     (if k' = k then v = Some w else waiting s k' w)"
  by (simp add: waiting_def update_conv')

lemma waiting_cong:
  "read_waiter s' = read_waiter s \<Longrightarrow> waiting s' k w = waiting s k w"
  by (simp add: waiting_def)

lemma waiting_key: "waiting s k w \<Longrightarrow> k \<in> fst ` set (read_waiter s)"
  by (auto simp: waiting_def dest: map_of_SomeD intro: rev_image_eqI)

lemma keys_update: "fst ` set (AList.update k v al) = insert k (fst ` set al)"
  by (induction al) auto

lemma slots_ok_cong:
  assumes "slots_ok s" and "read_waiter s' = read_waiter s" and "futures s' = futures s"
    and "next_future s' = next_future s" and "drain_waiters s' = drain_waiters s"
    and "(chan s' = None) = (chan s = None)" and "limit s' = limit s"
    and "fst ` set (recv_buf s) \<subseteq> fst ` set (recv_buf s')"
  shows "slots_ok s'"
proof -
  from assms(1) have "fst ` set (read_waiter s) \<subseteq> fst ` set (recv_buf s)"
    by (simp add: slots_ok_def)
  then have "fst ` set (read_waiter s') \<subseteq> fst ` set (recv_buf s')"
    unfolding assms(2) using assms(8) by (rule order_trans)
  with assms(1-7) show ?thesis
    unfolding slots_ok_def waiting_def by simp
qed

lemma wake_ok:
  assumes "futures s w \<noteq> Resolved"
  shows "\<exists>s'. wake s w = (Return (), s') \<and>
           futures s' = (futures s)(w := (if futures s w = Pending then Resolved else Cancelled)) \<and>
           read_waiter s' = read_waiter s"
  using assms by (cases "futures s w") (auto simp: wake_def)

lemma unblock_read_ok:
  assumes ok: "slots_ok s" and key: "k \<in> fst ` set (read_waiter s)"
  shows "\<exists>s'. unblock_read s k = (Return (), s') \<and> slots_ok s' \<and>
           (\<forall>w. \<not> waiting s' k w) \<and>
           (\<forall>k' w. waiting s' k' w \<longrightarrow> waiting s k' w) \<and>
           (\<forall>k' w. k' \<noteq> k \<longrightarrow> waiting s k' w \<longrightarrow> waiting s' k' w) \<and>
           (\<forall>w. waiting s k w \<longrightarrow> futures s w = Pending \<longrightarrow> futures s' w = Resolved) \<and>
           (\<forall>w. futures s w = Resolved \<longrightarrow> futures s' w = Resolved) \<and>
           (\<forall>w. \<not> waiting s k w \<longrightarrow> futures s' w = futures s w) \<and>
           fst ` set (read_waiter s') = fst ` set (read_waiter s)"
proof -
  from key obtain x where x: "map_of (read_waiter s) k = Some x"
    by (metis domD dom_map_of_conv_image_fst)
  show ?thesis
  proof (cases x)
    case None
    with x have "unblock_read s k = (Return (), s)" by (simp add: unblock_read_def)
    moreover from x None have "\<forall>w. \<not> waiting s k w" by (simp add: waiting_def)
    ultimately show ?thesis using ok by simp
  next
    case (Some w)
    with x have wt: "waiting s k w" by (simp add: waiting_def)
    with ok have nr: "futures s w \<noteq> Resolved" by (auto simp: slots_ok_def)
    from wake_ok [OF nr] obtain s1 where
      wk: "wake s w = (Return (), s1)"
      and f1: "futures s1 = (futures s)(w := (if futures s w = Pending then Resolved else Cancelled))"
      by blast
    let ?s' = "s1\<lparr>read_waiter := AList.update k None (read_waiter s1)\<rparr>"
    have u: "unblock_read s k = (Return (), ?s')"
      using x Some wk by (simp add: unblock_read_def)
    from wake_fields [OF wk] have fs: "read_waiter s1 = read_waiter s"
      "next_future s1 = next_future s" "drain_waiters s1 = drain_waiters s"
      "chan s1 = chan s" "limit s1 = limit s" "recv_buf s1 = recv_buf s" by simp_all
    have w': "\<And>k' w'. waiting ?s' k' w' \<longleftrightarrow> k' \<noteq> k \<and> waiting s k' w'"
      using fs(1) by (auto simp: waiting_def update_conv')
    have other: "\<And>k' w'. k' \<noteq> k \<Longrightarrow> waiting s k' w' \<Longrightarrow> w' \<noteq> w"
      using ok wt unfolding slots_ok_def by blast
    have dr: "w \<notin> set (drain_waiters s)" using ok wt unfolding slots_ok_def by blast
    have ok': "slots_ok ?s'"
      unfolding slots_ok_def
    proof (intro conjI allI impI ballI)
      show "chan ?s' \<noteq> None" "limit ?s' \<noteq> None" using ok fs by (simp_all add: slots_ok_def)
      show "fst ` set (read_waiter ?s') \<subseteq> fst ` set (recv_buf ?s')"
        using ok fs key by (auto simp: slots_ok_def keys_update)
      show "distinct (drain_waiters ?s')" using ok fs by (simp add: slots_ok_def)
    next
      fix k' w' assume a: "waiting ?s' k' w'"
      then have b: "k' \<noteq> k" "waiting s k' w'" using w' by blast+
      with other have "w' \<noteq> w" by blast
      with ok b f1 fs show "futures ?s' w' \<noteq> Resolved" "w' < next_future ?s'"
        "w' \<notin> set (drain_waiters ?s')"
        unfolding slots_ok_def by auto
    next
      fix k1 k2 w' assume "waiting ?s' k1 w'" "waiting ?s' k2 w'"
      then have "waiting s k1 w'" "waiting s k2 w'" using w' by blast+
      with ok show "k1 = k2" unfolding slots_ok_def by blast
    next
      fix w' assume a: "w' \<in> set (drain_waiters ?s')"
      then have "w' \<in> set (drain_waiters s)" using fs by simp
      with dr have "w' \<noteq> w" by blast
      with ok a f1 fs show "futures ?s' w' \<noteq> Resolved" "w' < next_future ?s'"
        unfolding slots_ok_def by auto
    qed
    have d1: "\<forall>w0. \<not> waiting ?s' k w0" using w' by blast
    have d2: "\<forall>k' w0. waiting ?s' k' w0 \<longrightarrow> waiting s k' w0" using w' by blast
    have d3: "\<forall>k' w0. k' \<noteq> k \<longrightarrow> waiting s k' w0 \<longrightarrow> waiting ?s' k' w0" using w' by blast
    have d4: "\<forall>w0. waiting s k w0 \<longrightarrow> futures s w0 = Pending \<longrightarrow> futures ?s' w0 = Resolved"
      using wt f1 by (auto simp: waiting_def)
    have d5: "\<forall>w0. futures s w0 = Resolved \<longrightarrow> futures ?s' w0 = Resolved"
      using f1 nr by auto
    have d6: "\<forall>w0. \<not> waiting s k w0 \<longrightarrow> futures ?s' w0 = futures s w0"
      using wt f1 by auto
    have d7: "fst ` set (read_waiter ?s') = fst ` set (read_waiter s)"
      using fs key by (auto simp: keys_update)
    show ?thesis by (intro exI [of _ ?s'] conjI u ok' d1 d2 d3 d4 d5 d6 d7)
  qed
qed


lemma unblock_each_ok:
  assumes "slots_ok s" and "set ks \<subseteq> fst ` set (read_waiter s)"
  shows "\<exists>s'. unblock_each s ks = (Return (), s') \<and> slots_ok s' \<and>
           (\<forall>k \<in> set ks. \<forall>w. \<not> waiting s' k w) \<and>
           (\<forall>k w. waiting s' k w \<longrightarrow> waiting s k w) \<and>
           (\<forall>k w. k \<in> set ks \<longrightarrow> waiting s k w \<longrightarrow> futures s w = Pending \<longrightarrow>
              futures s' w = Resolved) \<and>
           (\<forall>w. futures s w = Resolved \<longrightarrow> futures s' w = Resolved) \<and>
           fst ` set (read_waiter s') = fst ` set (read_waiter s)"
  using assms
proof (induction ks arbitrary: s)
  case Nil
  then show ?case by simp
next
  case (Cons k ks)
  from Cons.prems have key: "k \<in> fst ` set (read_waiter s)" by simp
  from unblock_read_ok [OF Cons.prems(1) key] obtain s1 where
    u: "unblock_read s k = (Return (), s1)" and ok1: "slots_ok s1"
    and nk: "\<forall>w. \<not> waiting s1 k w"
    and sub: "\<forall>k' w. waiting s1 k' w \<longrightarrow> waiting s k' w"
    and keep: "\<forall>k' w. k' \<noteq> k \<longrightarrow> waiting s k' w \<longrightarrow> waiting s1 k' w"
    and res: "\<forall>w. waiting s k w \<longrightarrow> futures s w = Pending \<longrightarrow> futures s1 w = Resolved"
    and stay: "\<forall>w. futures s w = Resolved \<longrightarrow> futures s1 w = Resolved"
    and same: "\<forall>w. \<not> waiting s k w \<longrightarrow> futures s1 w = futures s w"
    and keys: "fst ` set (read_waiter s1) = fst ` set (read_waiter s)"
    by (elim exE conjE) (rule that; assumption)
  from Cons.prems keys have "set ks \<subseteq> fst ` set (read_waiter s1)" by simp
  from Cons.IH [OF ok1 this] obtain s' where
    e: "unblock_each s1 ks = (Return (), s')" and ok': "slots_ok s'"
    and nk': "\<forall>k \<in> set ks. \<forall>w. \<not> waiting s' k w"
    and sub': "\<forall>k w. waiting s' k w \<longrightarrow> waiting s1 k w"
    and res': "\<forall>k w. k \<in> set ks \<longrightarrow> waiting s1 k w \<longrightarrow> futures s1 w = Pending \<longrightarrow>
              futures s' w = Resolved"
    and stay': "\<forall>w. futures s1 w = Resolved \<longrightarrow> futures s' w = Resolved"
    and keys': "fst ` set (read_waiter s') = fst ` set (read_waiter s1)"
    by (elim exE conjE) (rule that; assumption)
  have uniq: "\<And>k1 k2 w. waiting s k1 w \<Longrightarrow> waiting s k2 w \<Longrightarrow> k1 = k2"
    using Cons.prems(1) unfolding slots_ok_def by blast
  have c1: "unblock_each s (k # ks) = (Return (), s')" using u e by simp
  have c2: "\<forall>k' \<in> set (k # ks). \<forall>w. \<not> waiting s' k' w"
    using nk nk' sub' by auto
  have c3: "\<forall>k' w. waiting s' k' w \<longrightarrow> waiting s k' w"
    using sub sub' by blast
  have c4: "\<forall>k' w. k' \<in> set (k # ks) \<longrightarrow> waiting s k' w \<longrightarrow> futures s w = Pending \<longrightarrow>
              futures s' w = Resolved"
  proof (intro allI impI)
    fix k' w assume a: "k' \<in> set (k # ks)" "waiting s k' w" "futures s w = Pending"
    show "futures s' w = Resolved"
    proof (cases "k' = k")
      case True
      with a res stay' show ?thesis by blast
    next
      case False
      with a have "k' \<in> set ks" by simp
      moreover from False a keep have "waiting s1 k' w" by blast
      moreover from False a uniq have "\<not> waiting s k w" by blast
      with same a have "futures s1 w = Pending" by simp
      ultimately show ?thesis using res' by blast
    qed
  qed
  have c5: "\<forall>w. futures s w = Resolved \<longrightarrow> futures s' w = Resolved"
    using stay stay' by blast
  have c6: "fst ` set (read_waiter s') = fst ` set (read_waiter s)"
    using keys keys' by simp
  show ?case by (intro exI [of _ s'] conjI c1 ok' c2 c3 c4 c5 c6)
qed

lemma eof_received_ok:
  assumes "slots_ok s"
  shows "\<exists>s'. eof_received s = (Return True, s') \<and> well_formed s' \<and>
           (\<forall>k w. \<not> waiting s' k w) \<and>
           (\<forall>k w. waiting s k w \<longrightarrow> futures s w = Pending \<longrightarrow> futures s' w = Resolved) \<and>
           (\<forall>w. futures s w = Resolved \<longrightarrow> futures s' w = Resolved) \<and>
           fst ` set (read_waiter s') = fst ` set (read_waiter s)"
proof -
  let ?s1 = "s\<lparr>eof_received_flag := True\<rparr>"
  have ok1: "slots_ok ?s1" using assms by (simp add: slots_ok_def waiting_def)
  have w1: "\<And>k w. waiting ?s1 k w = waiting s k w" by (simp add: waiting_def)
  obtain s' where
    e: "unblock_each ?s1 (map fst (read_waiter ?s1)) = (Return (), s')" and ok': "slots_ok s'"
    and nk: "\<forall>k \<in> set (map fst (read_waiter ?s1)). \<forall>w. \<not> waiting s' k w"
    and sub: "\<forall>k w. waiting s' k w \<longrightarrow> waiting ?s1 k w"
    and res: "\<forall>k w. k \<in> set (map fst (read_waiter ?s1)) \<longrightarrow> waiting ?s1 k w \<longrightarrow>
        futures ?s1 w = Pending \<longrightarrow> futures s' w = Resolved"
    and stay: "\<forall>w. futures ?s1 w = Resolved \<longrightarrow> futures s' w = Resolved"
    and keys: "fst ` set (read_waiter s') = fst ` set (read_waiter ?s1)"
  proof -
    have "set (map fst (read_waiter ?s1)) \<subseteq> fst ` set (read_waiter ?s1)" by simp
    from unblock_each_ok [OF ok1 this] show ?thesis
      by (elim exE conjE) (rule that; assumption)
  qed
  have none: "\<forall>k w. \<not> waiting s' k w"
  proof (intro allI notI)
    fix k w assume a: "waiting s' k w"
    with sub have "waiting s k w" using w1 by blast
    then have "k \<in> set (map fst (read_waiter ?s1))" using waiting_key [of s k w] by simp
    with nk a show False by blast
  qed
  have c1: "eof_received s = (Return True, s')" using e by (simp add: eof_received_def Let_def)
  have c2: "well_formed s'" using ok' none by (simp add: well_formed_def)
  have c3: "\<forall>k w. waiting s k w \<longrightarrow> futures s w = Pending \<longrightarrow> futures s' w = Resolved"
  proof (intro allI impI)
    fix k w assume a: "waiting s k w" "futures s w = Pending"
    then have "k \<in> set (map fst (read_waiter ?s1))" using waiting_key [of s k w] by simp
    with a res w1 show "futures s' w = Resolved" by simp
  qed
  have c4: "fst ` set (read_waiter s') = fst ` set (read_waiter s)" using keys by simp
  have c5: "\<forall>w. futures s w = Resolved \<longrightarrow> futures s' w = Resolved" using stay by simp
  show ?thesis by (intro exI [of _ s'] conjI c1 c2 none c3 c5 c4)
qed


lemma wake_each_ok:
  assumes "\<forall>w \<in> set ws. futures s w \<noteq> Resolved" and "distinct ws"
  shows "\<exists>s'. wake_each s ws = (Return (), s') \<and>
           (\<forall>w. w \<notin> set ws \<longrightarrow> futures s' w = futures s w) \<and>
           (\<forall>w \<in> set ws. futures s w = Pending \<longrightarrow> futures s' w = Resolved)"
  using assms
proof (induction ws arbitrary: s)
  case Nil
  then show ?case by simp
next
  case (Cons w ws)
  from Cons.prems have nr: "futures s w \<noteq> Resolved" by simp
  from wake_ok [OF nr] obtain s1 where
    wk: "wake s w = (Return (), s1)"
    and f1: "futures s1 = (futures s)(w := (if futures s w = Pending then Resolved else Cancelled))"
    by blast
  from Cons.prems f1 have p1: "\<forall>w' \<in> set ws. futures s1 w' \<noteq> Resolved" by auto
  from Cons.prems have p2: "distinct ws" and nin: "w \<notin> set ws" by simp_all
  from Cons.IH [OF p1 p2] obtain s' where
    e: "wake_each s1 ws = (Return (), s')"
    and o: "\<forall>w'. w' \<notin> set ws \<longrightarrow> futures s' w' = futures s1 w'"
    and r: "\<forall>w' \<in> set ws. futures s1 w' = Pending \<longrightarrow> futures s' w' = Resolved"
    by blast
  have c1: "wake_each s (w # ws) = (Return (), s')" using wk e by simp
  have c2: "\<forall>w'. w' \<notin> set (w # ws) \<longrightarrow> futures s' w' = futures s w'"
    using o f1 by simp
  have c3: "\<forall>w' \<in> set (w # ws). futures s w' = Pending \<longrightarrow> futures s' w' = Resolved"
  proof (intro ballI impI)
    fix w' assume a: "w' \<in> set (w # ws)" "futures s w' = Pending"
    show "futures s' w' = Resolved"
    proof (cases "w' = w")
      case True
      with nin o have "futures s' w' = futures s1 w" by simp
      with True a f1 show ?thesis by simp
    next
      case False
      with a have in_ws: "w' \<in> set ws" by simp
      from False f1 a have "futures s1 w' = Pending" by simp
      with in_ws r show ?thesis by blast
    qed
  qed
  show ?case by (intro exI [of _ s'] conjI c1 c2 c3)
qed

lemma unblock_drain_ok:
  assumes "slots_ok s"
  shows "\<exists>s'. unblock_drain s = (Return (), s') \<and> slots_ok s' \<and>
           read_waiter s' = read_waiter s \<and>
           eof_received_flag s' = eof_received_flag s \<and>
           (\<forall>w \<in> set (drain_waiters s). futures s w = Pending \<longrightarrow> futures s' w = Resolved) \<and>
           (\<forall>w. w \<notin> set (drain_waiters s) \<longrightarrow> futures s' w = futures s w)"
proof -
  from assms have a: "\<forall>w \<in> set (drain_waiters s). futures s w \<noteq> Resolved"
    "distinct (drain_waiters s)" by (simp_all add: slots_ok_def)
  from wake_each_ok [OF a] obtain s1 where
    e: "wake_each s (drain_waiters s) = (Return (), s1)"
    and o: "\<forall>w. w \<notin> set (drain_waiters s) \<longrightarrow> futures s1 w = futures s w"
    and r: "\<forall>w \<in> set (drain_waiters s). futures s w = Pending \<longrightarrow> futures s1 w = Resolved"
    by blast
  let ?s' = "s1\<lparr>drain_waiters := []\<rparr>"
  from wake_each_fields [OF e] have fs: "read_waiter s1 = read_waiter s"
    "next_future s1 = next_future s" "chan s1 = chan s" "limit s1 = limit s"
    "recv_buf s1 = recv_buf s" "eof_received_flag s1 = eof_received_flag s" by simp_all
  have c1: "unblock_drain s = (Return (), ?s')" using e by (simp add: unblock_drain_def)
  have c2: "slots_ok ?s'"
    using assms fs o unfolding slots_ok_def waiting_def by auto
  have c3: "read_waiter ?s' = read_waiter s" using fs by simp
  have c4: "eof_received_flag ?s' = eof_received_flag s" using fs by simp
  have c5: "\<forall>w \<in> set (drain_waiters s). futures s w = Pending \<longrightarrow> futures ?s' w = Resolved"
    using r by simp
  have c6: "\<forall>w. w \<notin> set (drain_waiters s) \<longrightarrow> futures ?s' w = futures s w" using o by simp
  show ?thesis by (intro exI [of _ ?s'] conjI c1 c2 c3 c4 c5 c6)
qed

lemma well_formed_shrink:
  assumes "well_formed s" and "slots_ok s'" and "\<forall>k w. waiting s' k w \<longrightarrow> waiting s k w"
    and "eof_received_flag s' = eof_received_flag s"
  shows "well_formed s'"
  using assms unfolding well_formed_def by blast

lemma unblock_read_wf:
  assumes "slots_ok s" and "unblock_read s k = (r, s')"
  shows "slots_ok s' \<and> (\<forall>k' w. waiting s' k' w \<longrightarrow> waiting s k' w)"
proof (cases "k \<in> fst ` set (read_waiter s)")
  case True
  from unblock_read_ok [OF assms(1) True] assms(2) show ?thesis by auto
next
  case False
  then have "map_of (read_waiter s) k = None" by (simp add: map_of_eq_None_iff)
  with assms show ?thesis by (simp add: unblock_read_def)
qed

lemma store_queue_slots:
  assumes "slots_ok s"
  shows "slots_ok (store_queue s dt q len)"
  using assms by (rule slots_ok_cong) (auto simp: keys_update)

lemma data_received_wf:
  assumes "data_received s d dt = (r, s')" and "well_formed s"
  shows "well_formed s'"
proof (cases "map_of (recv_buf s) dt")
  case None
  with assms show ?thesis by (simp add: data_received_def)
next
  case (Some q)
  let ?s1 = "store_queue s dt (q @ [Data d]) (recv_buf_len s + int (length d))"
  from assms(2) have ok: "slots_ok s" by (simp add: well_formed_def)
  have ok1: "slots_ok ?s1" using ok by (rule store_queue_slots)
  obtain r2 s2 where u: "unblock_read ?s1 dt = (r2, s2)" by (cases "unblock_read ?s1 dt")
  from unblock_read_wf [OF ok1 u] have ok2: "slots_ok s2"
    and sub: "\<forall>k w. waiting s2 k w \<longrightarrow> waiting s k w"
    by (simp_all add: waiting_def)
  from unblock_read_fields [OF u] have e2: "eof_received_flag s2 = eof_received_flag s" by simp
  have wf2: "well_formed s2" using assms(2) ok2 sub e2 by (rule well_formed_shrink)
  have dr: "data_received s d dt =
      (case (r2, s2) of
         (Raise e, s2) \<Rightarrow> (Raise e, s2)
       | (Return _, s2) \<Rightarrow>
           (case limit s2 of
              None \<Rightarrow> (Raise TypeError, s2)
            | Some l \<Rightarrow>
                (if recv_buf_len s2 \<ge> l then chan_call s2 PauseReading else (Return (), s2))))"
    using Some u by (simp add: data_received_def store_queue_def Let_def)
  show ?thesis
  proof (cases r2)
    case (Raise e)
    with dr assms(1) wf2 show ?thesis by simp
  next
    case (Return x)
    show ?thesis
    proof (cases "limit s2")
      case None
      with Return dr assms(1) wf2 show ?thesis by simp
    next
      case (Some l)
      show ?thesis
      proof (cases "recv_buf_len s2 \<ge> l")
        case True
        with Some Return dr assms(1) have c: "chan_call s2 PauseReading = (r, s')" by simp
        from chan_call_fields [OF c] have "slots_ok s'"
          by (intro slots_ok_cong [OF ok2]) simp_all
        moreover from chan_call_fields [OF c] have "\<forall>k w. waiting s' k w \<longrightarrow> waiting s2 k w"
          by (simp add: waiting_def)
        moreover from chan_call_fields [OF c] have "eof_received_flag s' = eof_received_flag s2"
          by simp
        ultimately show ?thesis using wf2 by (intro well_formed_shrink [of s2 s']) simp_all
      next
        case False
        with Some Return dr assms(1) wf2 show ?thesis by simp
      qed
    qed
  qed
qed

lemma append_exc_keys:
  "append_exc s e ks = (r, s') \<Longrightarrow> fst ` set (recv_buf s) \<subseteq> fst ` set (recv_buf s')"
proof (induction s e ks rule: append_exc.induct)
  case (1 s e)
  then show ?case by simp
next
  case (2 s e k ks)
  show ?case
  proof (cases "map_of (recv_buf s) k")
    case None
    with "2.prems" show ?thesis by simp
  next
    case (Some q)
    with "2.prems" have "append_exc (s\<lparr>recv_buf := AList.update k (q @ [Exc e]) (recv_buf s)\<rparr>) e ks
        = (r, s')" by simp
    from "2.IH" [OF Some this] show ?thesis by (auto simp: keys_update)
  qed
qed

lemma append_exc_ok:
  "set ks \<subseteq> fst ` set (recv_buf s) \<Longrightarrow> \<exists>s'. append_exc s e ks = (Return (), s')"
proof (induction s e ks rule: append_exc.induct)
  case (1 s e)
  then show ?case by simp
next
  case (2 s e k ks)
  from "2.prems" have "k \<in> fst ` set (recv_buf s)" by simp
  then obtain q where q: "map_of (recv_buf s) k = Some q"
    by (metis domD dom_map_of_conv_image_fst)
  let ?s1 = "s\<lparr>recv_buf := AList.update k (q @ [Exc e]) (recv_buf s)\<rparr>"
  from "2.prems" have "set ks \<subseteq> fst ` set (recv_buf ?s1)" by (auto simp: keys_update)
  from "2.IH" [OF q this] q show ?case by simp
qed

lemma append_exc_wf:
  assumes "append_exc s e ks = (r, s')" and "slots_ok s"
  shows "slots_ok s' \<and> read_waiter s' = read_waiter s \<and>
         eof_received_flag s' = eof_received_flag s \<and> futures s' = futures s"
proof -
  from append_exc_fields [OF assms(1)] append_exc_keys [OF assms(1)]
  have "slots_ok s'" by (intro slots_ok_cong [OF assms(2)]) simp_all
  with append_exc_fields [OF assms(1)] show ?thesis by simp
qed

lemma connection_lost_wf:
  assumes "connection_lost s ex = (r, s')" and "well_formed s"
  shows "well_formed s'"
proof -
  let ?s1 = "s\<lparr>connection_lost_flag := True, exception := ex\<rparr>"
  from assms(2) have wf1: "well_formed ?s1"
    by (simp add: well_formed_def slots_ok_def waiting_def)
  let ?r2 = "(if \<not> eof_received_flag ?s1 then
                  (case (case ex of
                           None \<Rightarrow> (Return (), ?s1)
                         | Some e \<Rightarrow> append_exc ?s1 e (map fst (read_waiter ?s1))) of
                     (Raise e, s') \<Rightarrow> (Raise e, s')
                   | (Return _, s') \<Rightarrow>
                       (case eof_received s' of
                          (Raise e, s'') \<Rightarrow> (Raise e, s'')
                        | (Return _, s'') \<Rightarrow> (Return (), s'')))
                else (Return (), ?s1))"
  obtain ra sa where ap: "(case ex of None \<Rightarrow> (Return (), ?s1)
      | Some e \<Rightarrow> append_exc ?s1 e (map fst (read_waiter ?s1))) = (ra, sa)"
    by (cases "case ex of None \<Rightarrow> (Return (), ?s1)
      | Some e \<Rightarrow> append_exc ?s1 e (map fst (read_waiter ?s1))")
  have wfa: "well_formed sa"
  proof (cases ex)
    case None
    with ap wf1 show ?thesis by simp
  next
    case (Some e)
    with ap have a: "append_exc ?s1 e (map fst (read_waiter ?s1)) = (ra, sa)" by simp
    from wf1 have "slots_ok ?s1" by (simp add: well_formed_def)
    from append_exc_wf [OF a this] wf1 show ?thesis
      by (intro well_formed_shrink [of ?s1 sa]) (simp_all add: waiting_def)
  qed
  obtain r2 s2 where r2: "?r2 = (r2, s2)" by (cases ?r2)
  have wf2: "well_formed s2"
  proof (cases "eof_received_flag s")
    case True
    with r2 wf1 show ?thesis by auto
  next
    case False
    show ?thesis
    proof (cases ra)
      case (Raise e)
      with False r2 ap wfa show ?thesis by auto
    next
      case (Return x)
      from wfa have "slots_ok sa" by (simp add: well_formed_def)
      from eof_received_ok [OF this] obtain sb where
        "eof_received sa = (Return True, sb)" "well_formed sb"
        by (elim exE conjE) (rule that; assumption)
      with False Return r2 ap show ?thesis by auto
    qed
  qed
  have cl: "connection_lost s ex =
      (case (r2, s2) of
         (Raise e, s3) \<Rightarrow> (Raise e, s3)
       | (Return _, s3) \<Rightarrow> (if write_paused s3 then unblock_drain s3 else (Return (), s3)))"
    unfolding connection_lost_def Let_def r2 ..
  show ?thesis
  proof (cases r2)
    case (Raise e)
    with cl assms(1) wf2 show ?thesis by simp
  next
    case (Return x)
    show ?thesis
    proof (cases "write_paused s2")
      case True
      with Return cl assms(1) have u: "unblock_drain s2 = (r, s')" by simp
      from wf2 have "slots_ok s2" by (simp add: well_formed_def)
      from unblock_drain_ok [OF this] u wf2 show ?thesis
        by (intro well_formed_shrink [of s2 s']) (auto simp: waiting_def)
    next
      case False
      with Return cl assms(1) wf2 show ?thesis by simp
    qed
  qed
qed

lemma block_read_wf:
  assumes "block_read s dt = (r, s')" and "slots_ok s"
  shows "slots_ok s'"
proof (cases "map_of (read_waiter s) dt")
  case None
  with assms show ?thesis by (simp add: block_read_def)
next
  case (Some x)
  show ?thesis
  proof (cases x)
    case (Some w)
    with \<open>map_of (read_waiter s) dt = Some x\<close> assms show ?thesis by (simp add: block_read_def)
  next
    case None
    let ?w = "next_future s"
    let ?s' = "s\<lparr>futures := (futures s)(?w := Pending), next_future := Suc ?w,
      read_waiter := AList.update dt (Some ?w) (read_waiter s)\<rparr>"
    from None \<open>map_of (read_waiter s) dt = Some x\<close> assms(1) have s': "s' = ?s'"
      by (simp add: block_read_def new_future_def)
    have key: "dt \<in> fst ` set (read_waiter s)"
      using \<open>map_of (read_waiter s) dt = Some x\<close> by (metis domI dom_map_of_conv_image_fst)
    have w': "\<And>k w. waiting ?s' k w \<longleftrightarrow> (if k = dt then w = ?w else waiting s k w)"
      by (auto simp: waiting_def update_conv')
    have old: "\<And>k w. waiting s k w \<Longrightarrow> w < ?w"
      using assms(2) unfolding slots_ok_def by blast
    have old3: "\<And>k w. waiting s k w \<Longrightarrow> futures s w \<noteq> Resolved \<and> w \<notin> set (drain_waiters s)"
      using assms(2) unfolding slots_ok_def by blast
    have dr: "\<And>w. w \<in> set (drain_waiters s) \<Longrightarrow> futures s w \<noteq> Resolved \<and> w < ?w"
      using assms(2) unfolding slots_ok_def by blast
    have "slots_ok ?s'"
      unfolding slots_ok_def
    proof (intro conjI allI impI ballI)
      show "chan ?s' \<noteq> None" "limit ?s' \<noteq> None" "distinct (drain_waiters ?s')"
        using assms(2) by (simp_all add: slots_ok_def)
      show "fst ` set (read_waiter ?s') \<subseteq> fst ` set (recv_buf ?s')"
        using assms(2) key by (auto simp: slots_ok_def keys_update)
    next
      fix k w assume a: "waiting ?s' k w"
      show "futures ?s' w \<noteq> Resolved" "w < next_future ?s'" "w \<notin> set (drain_waiters ?s')"
      proof -
        have "(k = dt \<and> w = ?w) \<or> (k \<noteq> dt \<and> waiting s k w)" using a w' by (cases "k = dt") auto
        then show "futures ?s' w \<noteq> Resolved"
        proof
          assume "k = dt \<and> w = ?w" then show ?thesis by simp
        next
          assume "k \<noteq> dt \<and> waiting s k w"
          with old [of k w] old3 [of k w] show ?thesis by simp
        qed
        from \<open>(k = dt \<and> w = ?w) \<or> (k \<noteq> dt \<and> waiting s k w)\<close> show "w < next_future ?s'"
        proof
          assume "k = dt \<and> w = ?w" then show ?thesis by simp
        next
          assume "k \<noteq> dt \<and> waiting s k w"
          with old [of k w] show ?thesis by simp
        qed
        from \<open>(k = dt \<and> w = ?w) \<or> (k \<noteq> dt \<and> waiting s k w)\<close>
        show "w \<notin> set (drain_waiters ?s')"
        proof
          assume "k = dt \<and> w = ?w"
          with dr [of w] show ?thesis by auto
        next
          assume "k \<noteq> dt \<and> waiting s k w"
          with old3 [of k w] show ?thesis by simp
        qed
      qed
    next
      fix k1 k2 w assume a: "waiting ?s' k1 w" "waiting ?s' k2 w"
      show "k1 = k2"
      proof (cases "k1 = dt")
        case True
        with a w' have w: "w = ?w" by simp
        show ?thesis
        proof (rule ccontr)
          assume "k1 \<noteq> k2"
          with True a w' have "waiting s k2 w" by auto
          with old w show False by blast
        qed
      next
        case False
        with a w' have k1: "waiting s k1 w" by simp
        show ?thesis
        proof (cases "k2 = dt")
          case True
          with a w' have "w = ?w" by simp
          with old k1 show ?thesis by blast
        next
          case k2: False
          with a w' have "waiting s k2 w" by simp
          with k1 assms(2) show ?thesis unfolding slots_ok_def by blast
        qed
      qed
    next
      fix w assume "w \<in> set (drain_waiters ?s')"
      then have "w \<in> set (drain_waiters s)" by simp
      from dr [OF this] show "futures ?s' w \<noteq> Resolved" "w < next_future ?s'"
        by auto
    qed
    with s' show ?thesis by simp
  qed
qed


lemma store_queue_wf: "well_formed s \<Longrightarrow> well_formed (store_queue s dt q len)"
  by (rule well_formed_shrink [of s])
    (simp_all add: well_formed_def store_queue_slots waiting_def)

lemma resumed_wf:
  assumes "well_formed s" and "maybe_resume (store_queue s dt q len) = (r, s2)"
  shows "well_formed s2"
proof -
  have w1: "well_formed (store_queue s dt q len)" using assms(1) by (rule store_queue_wf)
  then have "slots_ok (store_queue s dt q len)" by (simp add: well_formed_def)
  with maybe_resume_fields [OF assms(2)] have "slots_ok s2"
    by (intro slots_ok_cong [of "store_queue s dt q len" s2]) simp_all
  with w1 maybe_resume_fields [OF assms(2)] show ?thesis
    by (intro well_formed_shrink [of "store_queue s dt q len" s2]) (simp_all add: waiting_def)
qed

lemma blocked_wf:
  assumes "well_formed s" and "maybe_resume (store_queue s dt q len) = (r, s2)"
    and "\<not> eof_received_flag s" and "block_read s2 dt = (rb, s')"
  shows "well_formed s'"
proof -
  from resumed_wf [OF assms(1,2)] have "slots_ok s2" by (simp add: well_formed_def)
  from block_read_wf [OF assms(4) this] have "slots_ok s'" .
  moreover from maybe_resume_fields [OF assms(2)] block_read_fields [OF assms(4)] assms(3)
  have "\<not> eof_received_flag s'" by simp
  ultimately show ?thesis by (simp add: well_formed_def)
qed

lemma read_pass_wf:
  assumes "read_pass s n dt exact data = (c, s')" and "well_formed s"
  shows "well_formed s'"
  using assms(1)
proof (cases rule: read_pass_cases)
  case nokey
  with assms(2) show ?thesis by simp
next
  case (raised q e q')
  with assms(2) show ?thesis by (simp add: store_queue_wf)
next
  case (resume_failed q q' n' data' len' e)
  from resumed_wf [OF assms(2) resume_failed(3)] show ?thesis .
next
  case (finish q q' n' data' len')
  from resumed_wf [OF assms(2) finish(3)] show ?thesis .
next
  case (block_failed q q' n' data' len' s2 e)
  from block_failed(4) have "\<not> eof_received_flag s" by simp
  from blocked_wf [OF assms(2) block_failed(3) this block_failed(5)] show ?thesis .
next
  case (blocked q q' n' data' len' s2 w)
  from blocked(4) have "\<not> eof_received_flag s" by simp
  from blocked_wf [OF assms(2) blocked(3) this blocked(5)] show ?thesis .
qed

lemma readline_pass_wf:
  assumes "readline_pass s dt data = (c, s')" and "well_formed s"
  shows "well_formed s'"
  using assms(1)
proof (cases rule: readline_pass_cases)
  case nokey
  with assms(2) show ?thesis by simp
next
  case (raised q e q')
  with assms(2) show ?thesis by (simp add: store_queue_wf)
next
  case (deferred q q' data' len')
  with assms(2) show ?thesis by (simp add: store_queue_wf)
next
  case (resume_failed q q' data' len' e)
  from resumed_wf [OF assms(2) resume_failed(3)] show ?thesis .
next
  case (line q q' data' len')
  from resumed_wf [OF assms(2) line(3)] show ?thesis .
next
  case (eof q data' len')
  from resumed_wf [OF assms(2) eof(3)] show ?thesis .
next
  case (block_failed q data' len' s2 e)
  from blocked_wf [OF assms(2) block_failed(3,4,5)] show ?thesis .
next
  case (blocked q data' len' s2 w)
  from blocked_wf [OF assms(2) blocked(3,4,5)] show ?thesis .
qed

lemma pause_writing_wf: "well_formed s \<Longrightarrow> well_formed (pause_writing s)"
  by (simp add: pause_writing_def well_formed_def slots_ok_def waiting_def)

lemma resume_writing_wf:
  assumes "resume_writing s = (r, s')" and "well_formed s"
  shows "well_formed s'"
proof -
  let ?s1 = "s\<lparr>write_paused := False\<rparr>"
  from assms(2) have w1: "well_formed ?s1"
    by (simp add: well_formed_def slots_ok_def waiting_def)
  then have "slots_ok ?s1" by (simp add: well_formed_def)
  from unblock_drain_ok [OF this] assms(1) w1 show ?thesis
    unfolding resume_writing_def
    by (intro well_formed_shrink [of ?s1 s']) (auto simp: waiting_def)
qed

lemma drain_wf:
  assumes "drain s = (c, s')" and "well_formed s"
  shows "well_formed s'"
proof (cases "write_paused s \<and> \<not> connection_lost_flag s")
  case False
  with assms show ?thesis by (auto simp: drain_def)
next
  case True
  let ?w = "next_future s"
  let ?s' = "s\<lparr>futures := (futures s)(?w := Pending), next_future := Suc ?w,
      drain_waiters := drain_waiters s @ [?w]\<rparr>"
  from True assms(1) have s': "s' = ?s'" by (auto simp: drain_def new_future_def)
  from assms(2) have ok: "slots_ok s" by (simp add: well_formed_def)
  have wt: "\<And>k w. waiting ?s' k w = waiting s k w" by (simp add: waiting_def)
  have old: "\<And>k w. waiting s k w \<Longrightarrow>
      futures s w \<noteq> Resolved \<and> w < ?w \<and> w \<notin> set (drain_waiters s)"
    using ok unfolding slots_ok_def by blast
  have dr: "\<And>w. w \<in> set (drain_waiters s) \<Longrightarrow> futures s w \<noteq> Resolved \<and> w < ?w"
    using ok unfolding slots_ok_def by blast
  have "slots_ok ?s'"
    unfolding slots_ok_def
  proof (intro conjI allI impI ballI)
    show "chan ?s' \<noteq> None" "limit ?s' \<noteq> None"
      "fst ` set (read_waiter ?s') \<subseteq> fst ` set (recv_buf ?s')"
      using ok by (simp_all add: slots_ok_def)
    show "distinct (drain_waiters ?s')" using ok dr [of ?w] by (auto simp: slots_ok_def)
  next
    fix k w assume "waiting ?s' k w"
    then have "waiting s k w" using wt by simp
    from old [OF this] show "futures ?s' w \<noteq> Resolved" "w < next_future ?s'"
      "w \<notin> set (drain_waiters ?s')" by auto
  next
    fix k1 k2 w assume "waiting ?s' k1 w" "waiting ?s' k2 w"
    then have "waiting s k1 w" "waiting s k2 w" using wt by simp_all
    with ok show "k1 = k2" unfolding slots_ok_def by blast
  next
    fix w assume "w \<in> set (drain_waiters ?s')"
    then have "w \<in> set (drain_waiters s) \<or> w = ?w" by auto
    then show "futures ?s' w \<noteq> Resolved" "w < next_future ?s'"
      using dr [of w] by auto
  qed
  with assms(2) wt have "well_formed ?s'" by (simp add: well_formed_def)
  with s' show ?thesis by simp
qed

lemma cancel_wf: "well_formed s \<Longrightarrow> well_formed (cancel s w)"
proof (cases "futures s w")
  case Pending
  assume wf: "well_formed s"
  let ?s' = "s\<lparr>futures := (futures s)(w := Cancelled)\<rparr>"
  from wf have "slots_ok ?s'" unfolding well_formed_def slots_ok_def waiting_def by auto
  with wf have "well_formed ?s'" by (simp add: well_formed_def waiting_def)
  with Pending show ?thesis by (simp add: cancel_def)
qed (simp_all add: cancel_def)

lemma update_none_slots:
  "\<forall>kv \<in> set al. snd kv = None \<Longrightarrow>
   \<forall>kv \<in> set (AList.update k None al). snd kv = (None :: nat option)"
  by (induction al) auto

lemma declare_datatypes_slots:
  assumes "fst ` set (read_waiter s) \<subseteq> fst ` set (recv_buf s)"
    and "\<forall>kv \<in> set (read_waiter s). snd kv = None"
  shows "fst ` set (read_waiter (declare_datatypes s ds)) \<subseteq>
           fst ` set (recv_buf (declare_datatypes s ds)) \<and>
         (\<forall>kv \<in> set (read_waiter (declare_datatypes s ds)). snd kv = None) \<and>
         chan (declare_datatypes s ds) = chan s \<and> limit (declare_datatypes s ds) = limit s \<and>
         drain_waiters (declare_datatypes s ds) = drain_waiters s \<and>
         eof_received_flag (declare_datatypes s ds) = eof_received_flag s"
  using assms
proof (induction s ds rule: declare_datatypes.induct)
  case (1 s)
  then show ?case by simp
next
  case (2 s k ds)
  let ?s1 = "s\<lparr>recv_buf := AList.update k [] (recv_buf s),
          read_waiter := AList.update k None (read_waiter s)\<rparr>"
  have a: "fst ` set (read_waiter ?s1) \<subseteq> fst ` set (recv_buf ?s1)"
    using "2.prems"(1) by (auto simp: keys_update)
  have "\<forall>kv \<in> set (AList.update k None (read_waiter s)). snd kv = None"
    using "2.prems"(2) by (rule update_none_slots)
  then have b: "\<forall>kv \<in> set (read_waiter ?s1). snd kv = None" by simp
  from "2.IH" [OF a b] show ?case by simp
qed

lemma connection_made_wf: "well_formed (connection_made init_session ch)"
proof -
  let ?i = "init_session\<lparr>chan := Some ch, limit := Some (recv_window ch)\<rparr>"
  let ?s = "declare_datatypes ?i (read_datatypes ch)"
  have "fst ` set (read_waiter ?i) \<subseteq> fst ` set (recv_buf ?i)"
    "\<forall>kv \<in> set (read_waiter ?i). snd kv = None"
    by (simp_all add: init_session_def)
  note d = declare_datatypes_slots [OF this, of "read_datatypes ch"]
  from d have keys: "fst ` set (read_waiter ?s) \<subseteq> fst ` set (recv_buf ?s)" by blast
  from d have none: "\<forall>kv \<in> set (read_waiter ?s). snd kv = None" by blast
  from d have "chan ?s = chan ?i" "limit ?s = limit ?i" "drain_waiters ?s = drain_waiters ?i"
    by blast+
  then have fs: "chan ?s = Some ch" "limit ?s = Some (recv_window ch)" "drain_waiters ?s = []"
    by (simp_all add: init_session_def)
  have nw: "\<And>k w. \<not> waiting ?s k w"
  proof
    fix k w assume "waiting ?s k w"
    then have "(k, Some w) \<in> set (read_waiter ?s)"
      unfolding waiting_def by (rule map_of_SomeD)
    with none show False by fastforce
  qed
  have "slots_ok ?s" unfolding slots_ok_def using keys fs nw by simp
  with nw show ?thesis by (simp add: well_formed_def connection_made_def)
qed

lemma eof_received_wf:
  assumes "eof_received s = (r, s')" and "well_formed s"
  shows "well_formed s'"
proof -
  from assms(2) have "slots_ok s" by (simp add: well_formed_def)
  from eof_received_ok [OF this] obtain s1 where
    "eof_received s = (Return True, s1)" "well_formed s1"
    by (elim exE conjE) (rule that; assumption)
  with assms(1) show ?thesis by simp
qed

lemma reachable_wf: "reachable s \<Longrightarrow> well_formed s"
proof (induction rule: reachable.induct)
  case (connected ch)
  show ?case by (rule connection_made_wf)
next
  case (received s d dt r s')
  then show ?case by (blast intro: data_received_wf)
next
  case (eof s rb s')
  then show ?case by (blast intro: eof_received_wf)
next
  case (lost s ex r s')
  then show ?case by (blast intro: connection_lost_wf)
next
  case (read_step s n dt exact data c s')
  then show ?case by (blast intro: read_pass_wf)
next
  case (readline_step s dt data cl s')
  then show ?case by (blast intro: readline_pass_wf)
next
  case (paused s)
  then show ?case by (simp add: pause_writing_wf)
next
  case (resumed s r s')
  then show ?case by (blast intro: resume_writing_wf)
next
  case (drained s cd s')
  then show ?case by (blast intro: drain_wf)
next
  case (cancelled s w)
  then show ?case by (simp add: cancel_wf)
qed

subsection \<open>One reader at a time\<close>

lemma block_read_occupied:
  "waiting s dt w \<Longrightarrow> block_read s dt = (Raise RuntimeError, s)"
  by (simp add: waiting_def block_read_def)

lemma read_pass_occupied:
  assumes "read_pass s n dt exact data = (c, s')" and "waiting s dt w"
  shows "(\<forall>w' l. c \<noteq> Blocked w' l) \<and> read_waiter s' = read_waiter s \<and> futures s' = futures s"
  using assms(1)
proof (cases rule: read_pass_cases)
  case (resume_failed q q' n' data' len' e)
  with maybe_resume_fields [OF resume_failed(3)] show ?thesis by simp
next
  case (finish q q' n' data' len')
  with maybe_resume_fields [OF finish(3)] show ?thesis by simp
next
  case (block_failed q q' n' data' len' s2 e)
  from maybe_resume_fields [OF block_failed(3)] assms(2) have "waiting s2 dt w"
    by (simp add: waiting_def)
  from block_read_occupied [OF this] block_failed(5) have "s' = s2" by simp
  with maybe_resume_fields [OF block_failed(3)] block_failed(6) show ?thesis by simp
next
  case (blocked q q' n' data' len' s2 w')
  from maybe_resume_fields [OF blocked(3)] assms(2) have "waiting s2 dt w"
    by (simp add: waiting_def)
  from block_read_occupied [OF this] blocked(5) show ?thesis by simp
qed simp_all

lemma readline_pass_occupied:
  assumes "readline_pass s dt data = (c, s')" and "waiting s dt w"
  shows "(\<forall>w' l. c \<noteq> Blocked w' l) \<and> read_waiter s' = read_waiter s \<and> futures s' = futures s"
  using assms(1)
proof (cases rule: readline_pass_cases)
  case (resume_failed q q' data' len' e)
  with maybe_resume_fields [OF resume_failed(3)] show ?thesis by simp
next
  case (line q q' data' len')
  with maybe_resume_fields [OF line(3)] show ?thesis by simp
next
  case (eof q data' len')
  with maybe_resume_fields [OF eof(3)] show ?thesis by simp
next
  case (block_failed q data' len' s2 e)
  from maybe_resume_fields [OF block_failed(3)] assms(2) have "waiting s2 dt w"
    by (simp add: waiting_def)
  from block_read_occupied [OF this] block_failed(5) have "s' = s2" by simp
  with maybe_resume_fields [OF block_failed(3)] block_failed(6) show ?thesis by simp
next
  case (blocked q data' len' s2 w')
  from maybe_resume_fields [OF blocked(3)] assms(2) have "waiting s2 dt w"
    by (simp add: waiting_def)
  from block_read_occupied [OF this] blocked(5) show ?thesis by simp
qed simp_all

lemma second_reader_on_empty_queue:
  assumes wt: "waiting s dt w" and buf: "map_of (recv_buf s) dt = Some []"
    and ne: "\<not> eof_received_flag s" and ch: "chan s = Some ch" and lim: "limit s = Some l"
  shows "(n \<noteq> 0 \<longrightarrow> fst (read s n dt exact) = Done (Raise RuntimeError)) \<and>
         fst (readline s dt) = Done (Raise RuntimeError)"
proof -
  from resume_at_eof [OF ch lim, of dt "[]" "recv_buf_len s"] obtain s2 where
    m: "maybe_resume (store_queue s dt [] (recv_buf_len s)) = (Return (), s2)"
    and e2: "eof_received_flag s2 = eof_received_flag s"
    by blast
  from maybe_resume_fields [OF m] wt have "waiting s2 dt w" by (simp add: waiting_def)
  from block_read_occupied [OF this] have b: "block_read s2 dt = (Raise RuntimeError, s2)" .
  have "n \<noteq> 0 \<longrightarrow> read_pass s n dt exact [] = (Done (Raise RuntimeError), s2)"
    using buf m e2 ne b by (simp add: read_pass_def)
  moreover have "readline_pass s dt [] = (Done (Raise RuntimeError), s2)"
    using buf m e2 ne b by (simp add: readline_pass_def)
  ultimately show ?thesis using buf ch by (simp add: read_def readline_def)
qed


lemma slot_cleared:
  assumes "k \<in> fst ` set (read_waiter s)" and "\<forall>w. \<not> waiting s k w"
  shows "map_of (read_waiter s) k = Some None"
proof -
  from assms(1) obtain x where x: "map_of (read_waiter s) k = Some x"
    by (metis domD dom_map_of_conv_image_fst)
  with assms(2) have "x = None" by (cases x) (auto simp: waiting_def)
  with x show ?thesis by simp
qed

lemma data_received_wakes:
  assumes ok: "slots_ok s" and wt: "waiting s dt w" and pend: "futures s w = Pending"
  shows "\<exists>s'. data_received s d dt = (Return (), s') \<and> futures s' w = Resolved \<and>
           map_of (read_waiter s') dt = Some None"
proof -
  from waiting_key [OF wt] have key: "dt \<in> fst ` set (read_waiter s)" .
  with ok have "dt \<in> fst ` set (recv_buf s)" unfolding slots_ok_def by blast
  then obtain q where q: "map_of (recv_buf s) dt = Some q"
    by (metis domD dom_map_of_conv_image_fst)
  let ?s1 = "store_queue s dt (q @ [Data d]) (recv_buf_len s + int (length d))"
  have ok1: "slots_ok ?s1" using ok by (rule store_queue_slots)
  have key1: "dt \<in> fst ` set (read_waiter ?s1)" using key by simp
  have wt1: "waiting ?s1 dt w" using wt by (simp add: waiting_def)
  obtain s2 where u: "unblock_read ?s1 dt = (Return (), s2)" and ok2: "slots_ok s2"
    and nw: "\<forall>w'. \<not> waiting s2 dt w'"
    and res: "\<forall>w'. waiting ?s1 dt w' \<longrightarrow> futures ?s1 w' = Pending \<longrightarrow> futures s2 w' = Resolved"
    and keys: "fst ` set (read_waiter s2) = fst ` set (read_waiter ?s1)"
    using unblock_read_ok [OF ok1 key1] by (elim exE conjE) (rule that; assumption)
  from res wt1 pend have f2: "futures s2 w = Resolved" by simp
  from keys key1 have "dt \<in> fst ` set (read_waiter s2)" by simp
  from slot_cleared [OF this nw] have sl: "map_of (read_waiter s2) dt = Some None" .
  from ok2 obtain l ch where lim: "limit s2 = Some l" and ch: "chan s2 = Some ch"
    unfolding slots_ok_def by auto
  have dr: "data_received s d dt =
      (if recv_buf_len s2 \<ge> l then chan_call s2 PauseReading else (Return (), s2))"
    using q u lim by (simp add: data_received_def store_queue_def Let_def)
  show ?thesis
  proof (cases "recv_buf_len s2 \<ge> l")
    case True
    let ?s' = "s2\<lparr>chan := Some (ch\<lparr>calls := calls ch @ [PauseReading]\<rparr>)\<rparr>"
    from True dr ch have "data_received s d dt = (Return (), ?s')" by (simp add: chan_call_def)
    moreover have "futures ?s' w = Resolved" "map_of (read_waiter ?s') dt = Some None"
      using f2 sl by simp_all
    ultimately show ?thesis by blast
  next
    case False
    with dr f2 sl show ?thesis by simp
  qed
qed

lemma eof_received_wakes:
  assumes ok: "slots_ok s" and wt: "waiting s dt w" and pend: "futures s w = Pending"
  shows "\<exists>s'. eof_received s = (Return True, s') \<and> futures s' w = Resolved \<and>
           map_of (read_waiter s') dt = Some None \<and> slots_ok s' \<and>
           drain_waiters s' = drain_waiters s \<and> write_paused s' = write_paused s"
proof -
  obtain s' where e: "eof_received s = (Return True, s')" and wf: "well_formed s'"
    and nw: "\<forall>k w. \<not> waiting s' k w"
    and res: "\<forall>k w. waiting s k w \<longrightarrow> futures s w = Pending \<longrightarrow> futures s' w = Resolved"
    and keys: "fst ` set (read_waiter s') = fst ` set (read_waiter s)"
    using eof_received_ok [OF ok] by (elim exE conjE) (rule that; assumption)
  from res wt pend have c2: "futures s' w = Resolved" by blast
  from waiting_key [OF wt] keys have "dt \<in> fst ` set (read_waiter s')" by simp
  moreover from nw have "\<forall>w. \<not> waiting s' dt w" by blast
  ultimately have c3: "map_of (read_waiter s') dt = Some None" by (rule slot_cleared)
  from wf have c4: "slots_ok s'" by (simp add: well_formed_def)
  from eof_received_fields [OF e] have c5: "drain_waiters s' = drain_waiters s"
    and c6: "write_paused s' = write_paused s" by simp_all
  show ?thesis by (intro exI [of _ s'] conjI e c2 c3 c4 c5 c6)
qed

lemma connection_lost_wakes:
  assumes ok: "slots_ok s" and wt: "waiting s dt w" and pend: "futures s w = Pending"
    and ne: "\<not> eof_received_flag s"
  shows "\<exists>s'. connection_lost s ex = (Return (), s') \<and> futures s' w = Resolved \<and>
           map_of (read_waiter s') dt = Some None"
proof -
  let ?s1 = "s\<lparr>connection_lost_flag := True, exception := ex\<rparr>"
  have ok1: "slots_ok ?s1" using ok by (simp add: slots_ok_def waiting_def)
  obtain sa where ap: "(case ex of None \<Rightarrow> (Return (), ?s1)
      | Some e \<Rightarrow> append_exc ?s1 e (map fst (read_waiter ?s1))) = (Return (), sa)"
    and oka: "slots_ok sa" and rwa: "read_waiter sa = read_waiter s"
    and fa: "futures sa = futures s" and dwa: "drain_waiters sa = drain_waiters s"
  proof (cases ex)
    case None
    with ok1 that [of ?s1] show ?thesis by simp
  next
    case (Some e)
    from ok1 have "set (map fst (read_waiter ?s1)) \<subseteq> fst ` set (recv_buf ?s1)"
      unfolding slots_ok_def by simp
    from append_exc_ok [OF this, of e] obtain sa where
      a: "append_exc ?s1 e (map fst (read_waiter ?s1)) = (Return (), sa)" by blast
    from append_exc_wf [OF a ok1] append_exc_fields [OF a] Some a that [of sa]
    show ?thesis by simp
  qed
  have wta: "waiting sa dt w" using wt rwa by (simp add: waiting_def)
  have pa: "futures sa w = Pending" using pend fa by simp
  obtain sb where e: "eof_received sa = (Return True, sb)" and fb: "futures sb w = Resolved"
    and slb: "map_of (read_waiter sb) dt = Some None" and okb: "slots_ok sb"
    and dwb: "drain_waiters sb = drain_waiters sa" and wpb: "write_paused sb = write_paused sa"
    using eof_received_wakes [OF oka wta pa] by (elim exE conjE) (rule that; assumption)
  have cl: "connection_lost s ex =
      (if write_paused sb then unblock_drain sb else (Return (), sb))"
    using ne ap e by (simp add: connection_lost_def Let_def)
  show ?thesis
  proof (cases "write_paused sb")
    case False
    with cl fb slb show ?thesis by simp
  next
    case True
    obtain s' where u: "unblock_drain sb = (Return (), s')"
      and rw: "read_waiter s' = read_waiter sb"
      and oth: "\<forall>w. w \<notin> set (drain_waiters sb) \<longrightarrow> futures s' w = futures sb w"
      using unblock_drain_ok [OF okb] by (elim exE conjE) (rule that; assumption)
    from ok wt have "w \<notin> set (drain_waiters s)" unfolding slots_ok_def by blast
    with dwa dwb have "w \<notin> set (drain_waiters sb)" by simp
    with oth fb have "futures s' w = Resolved" by simp
    with True cl u rw slb show ?thesis by simp
  qed
qed

text \<open>
  Claim C7. In a state the session reaches, let a reader be parked on the pending
  future \<open>w\<close> in the slot of a datatype. Then \<^verbatim>\<open>_block_read\<close> on that datatype raises
  the usage error and changes nothing; no pass of \<^verbatim>\<open>read\<close> or \<^verbatim>\<open>readline\<close> on the
  datatype is parked, and each leaves the slots and the futures as they are (so the
  first reader is still parked, on a pending future, in a state the session reaches);
  on an empty queue a second call of \<^verbatim>\<open>read\<close> (with \<open>n \<noteq> 0\<close>) or \<^verbatim>\<open>readline\<close> raises
  the usage error; and the next \<^verbatim>\<open>data_received\<close> on the datatype, \<^verbatim>\<open>eof_received\<close>
  or \<^verbatim>\<open>connection_lost\<close> gives \<open>w\<close> its result and empties the slot.
\<close>

theorem single_waiter:
  assumes "reachable s" and "waiting s dt w" and "futures s w = Pending"
  shows
    "block_read s dt = (Raise RuntimeError, s) \<and>
     (\<forall>n exact data c s'. read_pass s n dt exact data = (c, s') \<longrightarrow>
        (\<forall>w' l. c \<noteq> Blocked w' l) \<and> read_waiter s' = read_waiter s \<and>
        futures s' = futures s \<and> reachable s') \<and>
     (\<forall>data c s'. readline_pass s dt data = (c, s') \<longrightarrow>
        (\<forall>w' l. c \<noteq> Blocked w' l) \<and> read_waiter s' = read_waiter s \<and>
        futures s' = futures s \<and> reachable s') \<and>
     (map_of (recv_buf s) dt = Some [] \<longrightarrow>
        (\<forall>n exact. n \<noteq> 0 \<longrightarrow> fst (read s n dt exact) = Done (Raise RuntimeError)) \<and>
        fst (readline s dt) = Done (Raise RuntimeError)) \<and>
     (\<forall>d. \<exists>s'. data_received s d dt = (Return (), s') \<and> futures s' w = Resolved \<and>
        map_of (read_waiter s') dt = Some None) \<and>
     (\<exists>s'. eof_received s = (Return True, s') \<and> futures s' w = Resolved \<and>
        map_of (read_waiter s') dt = Some None) \<and>
     (\<forall>ex. \<exists>s'. connection_lost s ex = (Return (), s') \<and> futures s' w = Resolved \<and>
        map_of (read_waiter s') dt = Some None)"
proof -
  from reachable_wf [OF assms(1)] have wf: "well_formed s" .
  then have ok: "slots_ok s" by (simp add: well_formed_def)
  from wf assms(2) have ne: "\<not> eof_received_flag s" unfolding well_formed_def by blast
  from ok obtain ch l where ch: "chan s = Some ch" and lim: "limit s = Some l"
    unfolding slots_ok_def by auto
  have c1: "block_read s dt = (Raise RuntimeError, s)"
    using assms(2) by (rule block_read_occupied)
  have c2: "\<forall>n exact data c s'. read_pass s n dt exact data = (c, s') \<longrightarrow>
        (\<forall>w' l. c \<noteq> Blocked w' l) \<and> read_waiter s' = read_waiter s \<and>
        futures s' = futures s \<and> reachable s'"
    using read_pass_occupied [OF _ assms(2)] reachable.read_step [OF assms(1)] by blast
  have c3: "\<forall>data c s'. readline_pass s dt data = (c, s') \<longrightarrow>
        (\<forall>w' l. c \<noteq> Blocked w' l) \<and> read_waiter s' = read_waiter s \<and>
        futures s' = futures s \<and> reachable s'"
    using readline_pass_occupied [OF _ assms(2)] reachable.readline_step [OF assms(1)] by blast
  have c4: "map_of (recv_buf s) dt = Some [] \<longrightarrow>
        (\<forall>n exact. n \<noteq> 0 \<longrightarrow> fst (read s n dt exact) = Done (Raise RuntimeError)) \<and>
        fst (readline s dt) = Done (Raise RuntimeError)"
    using second_reader_on_empty_queue [OF assms(2) _ ne ch lim] by blast
  have c5: "\<forall>d. \<exists>s'. data_received s d dt = (Return (), s') \<and> futures s' w = Resolved \<and>
        map_of (read_waiter s') dt = Some None"
    using data_received_wakes [OF ok assms(2,3)] by blast
  have c6: "\<exists>s'. eof_received s = (Return True, s') \<and> futures s' w = Resolved \<and>
        map_of (read_waiter s') dt = Some None"
    using eof_received_wakes [OF ok assms(2,3)] by blast
  have c7: "\<forall>ex. \<exists>s'. connection_lost s ex = (Return (), s') \<and> futures s' w = Resolved \<and>
        map_of (read_waiter s') dt = Some None"
    using connection_lost_wakes [OF ok assms(2,3) ne] by blast
  show ?thesis by (intro conjI c1 c2 c3 c4 c5 c6 c7)
qed

theorem single_waiter_witness:
  "waiting parked_session None 0 \<and> futures parked_session 0 = Pending \<and>
   fst (read parked_session 3 None False) = Done (Raise RuntimeError) \<and>
   (\<exists>s'. data_received parked_session [1, 2, 3] None = (Return (), s') \<and>
         futures s' 0 = Resolved \<and> map_of (read_waiter s') None = Some None)"
proof -
  let ?c = "connection_made init_session example_channel"
  have "map_of (recv_buf ?c) None = Some []" "chan ?c = Some example_channel"
    by code_simp+
  then have "read ?c 5 None True = read_pass ?c 5 None True []" by (rule read_call)
  then have "read_pass ?c 5 None True [] = (fst (read ?c 5 None True), parked_session)"
    by (simp add: parked_session_def)
  from reachable.read_step [OF reachable.connected this] have r: "reachable parked_session" .
  have w: "waiting parked_session None 0" by code_simp
  have p: "futures parked_session 0 = Pending" by code_simp
  have b: "map_of (recv_buf parked_session) None = Some []" by code_simp
  note t = single_waiter [OF r w p]
  from t [THEN conjunct2, THEN conjunct2, THEN conjunct2, THEN conjunct1] b
  have c4: "fst (read parked_session 3 None False) = Done (Raise RuntimeError)" by simp
  from t [THEN conjunct2, THEN conjunct2, THEN conjunct2, THEN conjunct2, THEN conjunct1]
  have c5: "\<exists>s'. data_received parked_session [1, 2, 3] None = (Return (), s') \<and>
         futures s' 0 = Resolved \<and> map_of (read_waiter s') None = Some None"
    by (rule spec)
  from w p c4 c5 show ?thesis by (intro conjI)
qed

end
